theory Spec2Isabelle
  imports Main "HOL-Library.Monad_Syntax"
begin

section \<open>Data model of CommitModel (src/ui/CommitList.cpp)\<close>

text \<open>
  A \<open>git::Commit\<close> is a handle compared by object id; the default-constructed handle
  \<open>git::Commit()\<close> is the invalid commit, here \<open>None\<close>.
\<close>

type_synonym oid = nat
type_synonym commit = "oid option"

definition isValid :: "commit \<Rightarrow> bool" where
  "isValid c = (c \<noteq> None)"

text \<open>
  A \<open>QColor\<close>: \<open>name()\<close> is the \<open>#RRGGBB\<close> string, which leaves the alpha channel
  out; the default-constructed \<open>QColor()\<close> is the invalid colour, whose name is
  \<open>#000000\<close>.
\<close>

datatype QColor = InvalidColor | QColor string nat

fun name :: "QColor \<Rightarrow> string" where
  "name InvalidColor = ''#000000''"
| "name (QColor rgb a) = rgb"

definition kTaintedColor :: QColor where
  "kTaintedColor = QColor ''#a0a0a4'' 255"

datatype GraphSegment =
  Dot | Top | Middle | Bottom | Cross | LeftIn | LeftOut | RightIn | RightOut

datatype Parent = Parent (commit: commit) (color: QColor) (tainted: bool)

datatype Segment = Segment (segment: GraphSegment) (segColor: QColor)

type_synonym Column = "Segment list"

datatype Row = Row (rowCommit: commit) (rowColumns: "Column list")

definition taintedColor :: "Parent \<Rightarrow> commit \<Rightarrow> QColor" where
  "taintedColor p c = (if tainted p \<and> commit p \<noteq> c then kTaintedColor else color p)"

section \<open>nextColor\<close>

text \<open>
  \<open>QMap<QString,int> counts\<close>: \<open>counts[k]++\<close> inserts a zero for a missing key before
  it increments, \<open>counts.value(k)\<close> reads zero for a missing key.
\<close>

definition increment :: "(string \<rightharpoonup> nat) \<Rightarrow> string \<Rightarrow> (string \<rightharpoonup> nat)" where
  "increment counts k = counts(k \<mapsto> (case counts k of None \<Rightarrow> 0 | Some n \<Rightarrow> n) + 1)"

definition valueOf :: "(string \<rightharpoonup> nat) \<Rightarrow> string \<Rightarrow> nat" where
  "valueOf counts k = (case counts k of None \<Rightarrow> 0 | Some n \<Rightarrow> n)"

definition colorCounts :: "Parent list \<Rightarrow> (string \<rightharpoonup> nat)" where
  "colorCounts mParents = fold (\<lambda>parent counts. increment counts (name (color parent))) mParents Map.empty"

text \<open>
  The \<open>forever\<close> loop of \<open>nextColor\<close>. It has no exit but the \<open>return\<close> inside the
  \<open>foreach\<close>, so it may run forever: \<open>None\<close> is "never returns". The result pairs the
  colour returned with the value \<open>count\<close> holds at the \<open>return\<close>.
\<close>

partial_function (option) nextColorLoop ::
  "(string \<rightharpoonup> nat) \<Rightarrow> QColor list \<Rightarrow> nat \<Rightarrow> (nat \<times> QColor) option" where
  "nextColorLoop counts colors count =
     (case find (\<lambda>c. valueOf counts (name c) = count) colors of
        Some c \<Rightarrow> Some (count, c)
      | None \<Rightarrow> nextColorLoop counts colors (count + 1))"

declare nextColorLoop.simps [code]

text \<open>
  \<open>colors\<close> is \<open>Application::theme()->branchTopologyEdges()\<close>, the theme's ordered
  palette, taken as a parameter.
\<close>

definition nextColor :: "QColor list \<Rightarrow> Parent list \<Rightarrow> QColor option" where
  "nextColor colors mParents = map_option snd (nextColorLoop (colorCounts mParents) colors 0)"

section \<open>indexOf and contains\<close>

text \<open>
  \<open>indexOf\<close> returns the first index whose lane holds the commit, or \<open>-1\<close>; the
  model returns \<open>None\<close> for \<open>-1\<close>.
\<close>

fun indexOf :: "Parent list \<Rightarrow> commit \<Rightarrow> nat option" where
  "indexOf [] c = None"
| "indexOf (p # ps) c = (if commit p = c then Some 0 else map_option Suc (indexOf ps c))"

definition contains :: "Row list \<Rightarrow> commit \<Rightarrow> Row list \<Rightarrow> bool" where
  "contains mRows c rows = (c \<in> set (map rowCommit mRows) \<or> c \<in> set (map rowCommit rows))"

section \<open>columns\<close>

text \<open>
  \<open>columns[i] << s\<close> on a \<open>QVector<Column>\<close>: \<open>operator[]\<close> asserts that the index is
  in range and is undefined beyond it; the model returns \<open>None\<close> there.
\<close>

definition addSegment :: "Column list \<Rightarrow> nat \<Rightarrow> Segment \<Rightarrow> Column list option" where
  "addSegment columns i s =
     (if i < length columns then Some (columns[i := columns ! i @ [s]]) else None)"

text \<open>A \<open>for\<close> or \<open>foreach\<close> loop whose body may fail: the first failure ends it.\<close>

fun forEach :: "('a \<Rightarrow> 's \<Rightarrow> 's option) \<Rightarrow> 'a list \<Rightarrow> 's \<Rightarrow> 's option" where
  "forEach body [] s = Some s"
| "forEach body (x # xs) s = (case body x s of None \<Rightarrow> None | Some s' \<Rightarrow> forEach body xs s')"

text \<open>
  The body of \<open>foreach (const git::Commit &successor, successors)\<close>: one path from lane
  \<open>i\<close> of the current row to the lane of \<open>successor\<close> in \<open>mParents\<close>, the next row.
\<close>

definition addPath ::
  "Parent list \<Rightarrow> commit \<Rightarrow> Parent \<Rightarrow> nat \<Rightarrow> commit list \<Rightarrow> commit \<Rightarrow> Column list
     \<Rightarrow> Column list option" where
  "addPath mParents c parent i successors successor columns =
     (case indexOf mParents successor of
        None \<Rightarrow> Some columns
      | Some index \<Rightarrow>
          let single = (length successors = 1);
              col = (if single then taintedColor parent c else color (mParents ! index))
          in if index < i then do {
               columns \<leftarrow> addSegment columns index (Segment RightIn col);
               columns \<leftarrow> forEach (\<lambda>j columns. addSegment columns j (Segment Cross col))
                             [index + 1 ..< i] columns;
               addSegment columns i (Segment LeftOut col)
             } else if index > i then do {
               columns \<leftarrow> addSegment columns i (Segment RightOut col);
               columns \<leftarrow> forEach (\<lambda>j columns. addSegment columns j (Segment Cross col))
                             [i + 1 ..< index] columns;
               columns \<leftarrow> Some (if index = length columns then columns @ [[]] else columns);
               addSegment columns index (Segment LeftIn col)
             } else addSegment columns index (Segment Bottom col))"

text \<open>
  \<open>parentsOf\<close> is \<open>git::Commit::parents()\<close>, the repository's parent lists, taken as a
  parameter.
\<close>

definition successorsOf :: "(commit \<Rightarrow> commit list) \<Rightarrow> commit \<Rightarrow> Parent \<Rightarrow> commit list" where
  "successorsOf parentsOf c parent =
     (if commit parent = c then parentsOf (commit parent) else [commit parent])"

definition addOutgoing ::
  "(commit \<Rightarrow> commit list) \<Rightarrow> Parent list \<Rightarrow> commit \<Rightarrow> Parent list \<Rightarrow> nat \<Rightarrow> Column list
     \<Rightarrow> Column list option" where
  "addOutgoing parentsOf mParents c parents i columns =
     (let parent = parents ! i;
          successors = successorsOf parentsOf c parent
      in forEach (addPath mParents c parent i successors) successors columns)"

definition columns ::
  "(commit \<Rightarrow> commit list) \<Rightarrow> Parent list \<Rightarrow> commit \<Rightarrow> Parent list \<Rightarrow> bool
     \<Rightarrow> Column list option" where
  "columns parentsOf mParents c parents root =
     (let count = length parents;
          incoming = (if root then count - 1 else count)
      in do {
        columns \<leftarrow> forEach (\<lambda>i columns.
                      addSegment columns i (Segment Top (taintedColor (parents ! i) None)))
                    [0 ..< incoming] (replicate count []);
        columns \<leftarrow> forEach (addOutgoing parentsOf mParents c parents) [0 ..< count] columns;
        forEach (\<lambda>i columns.
            addSegment columns i
              (Segment (if commit (parents ! i) = c then Dot else Middle)
                 (taintedColor (parents ! i) None)))
          [0 ..< count] columns
      })"

section \<open>fetchMore\<close>

text \<open>
  \<open>mWalker\<close>: an invalid \<open>git::RevWalk\<close> is \<open>None\<close>; a valid one is the list of commits
  that its further calls of \<open>next(mPathspec)\<close> yield, after which \<open>next\<close> returns the
  invalid commit. \<open>next\<close> on an invalid walker returns the invalid commit too.
\<close>

definition walkerNext :: "oid list option \<Rightarrow> commit \<times> oid list option" where
  "walkerNext w =
     (case w of
        None \<Rightarrow> (None, None)
      | Some [] \<Rightarrow> (None, Some [])
      | Some (c # cs) \<Rightarrow> (Some c, Some cs))"

text \<open>Add root commits: a commit with no lane gets a new lane at the end.\<close>

definition addRoot :: "QColor list \<Rightarrow> commit \<Rightarrow> Parent list \<Rightarrow> (bool \<times> Parent list) option" where
  "addRoot colors c mParents =
     (case indexOf mParents c of
        None \<Rightarrow> do {
          col \<leftarrow> nextColor colors mParents;
          Some (True, mParents @ [Parent c col False])
        }
      | Some _ \<Rightarrow> Some (False, mParents))"

text \<open>The parents of the commit that have no lane and no row yet.\<close>

definition replacementsOf ::
  "(commit \<Rightarrow> commit list) \<Rightarrow> Row list \<Rightarrow> Row list \<Rightarrow> Parent list \<Rightarrow> commit \<Rightarrow> commit list" where
  "replacementsOf parentsOf mRows rows mParents c =
     filter (\<lambda>parent. indexOf mParents parent = None \<and> \<not> contains mRows parent rows)
       (parentsOf c)"

fun appendReplacements :: "QColor list \<Rightarrow> commit list \<Rightarrow> Parent list \<Rightarrow> Parent list option" where
  "appendReplacements colors [] mParents = Some mParents"
| "appendReplacements colors (replacement # replacements) mParents = do {
     col \<leftarrow> nextColor colors mParents;
     appendReplacements colors replacements (mParents @ [Parent replacement col False])
   }"

text \<open>Set parents for next row: \<open>takeAt(index)\<close>, \<open>insert(index, _)\<close> and the appends.\<close>

definition replaceCommit ::
  "QColor list \<Rightarrow> commit list \<Rightarrow> commit \<Rightarrow> Parent list \<Rightarrow> Parent list option" where
  "replaceCommit colors replacements c mParents =
     (case indexOf mParents c of
        None \<Rightarrow> Some mParents
      | Some index \<Rightarrow>
          let parent = mParents ! index;
              mParents = take index mParents @ drop (index + 1) mParents
          in case replacements of
               [] \<Rightarrow> Some mParents
             | replacement # replacements \<Rightarrow>
                 appendReplacements colors replacements
                   (take index mParents @ [Parent replacement (color parent) False]
                      @ drop index mParents))"

text \<open>
  One turn of the \<open>while\<close> loop up to \<open>rows.append\<close>: the row and the next frontier.
  \<open>None\<close>: the turn does not complete, because \<open>nextColor\<close> never returns or
  \<open>columns\<close> indexes its vector out of range.
\<close>

definition layoutCommit ::
  "(commit \<Rightarrow> commit list) \<Rightarrow> QColor list \<Rightarrow> bool \<Rightarrow> string \<Rightarrow> Row list \<Rightarrow> Row list
     \<Rightarrow> commit \<Rightarrow> Parent list \<Rightarrow> (Row \<times> Parent list) option" where
  "layoutCommit parentsOf colors graphVisible pathspec mRows rows c mParents = do {
     (root, mParents) \<leftarrow> addRoot colors c mParents;
     let parents = mParents;
     let replacements = replacementsOf parentsOf mRows rows mParents c;
     mParents \<leftarrow> replaceCommit colors replacements c mParents;
     row \<leftarrow> (if graphVisible \<and> pathspec = []
             then columns parentsOf mParents c parents root else Some []);
     Some (Row c row, mParents)
   }"

text \<open>
  The \<open>while (commit.isValid())\<close> loop. It returns the rows of the batch, the commit
  and the walker it stopped at, and the frontier.
\<close>

function fetchLoop ::
  "(commit \<Rightarrow> commit list) \<Rightarrow> QColor list \<Rightarrow> bool \<Rightarrow> string \<Rightarrow> Row list
     \<Rightarrow> nat \<Rightarrow> Row list \<Rightarrow> commit \<Rightarrow> oid list option \<Rightarrow> Parent list
     \<Rightarrow> (Row list \<times> commit \<times> oid list option \<times> Parent list) option" where
  "fetchLoop parentsOf colors graphVisible pathspec mRows i rows c walker mParents =
     (if isValid c then
        (case layoutCommit parentsOf colors graphVisible pathspec mRows rows c mParents of
           None \<Rightarrow> None
         | Some (row, mParents) \<Rightarrow>
             if i \<ge> 64 then Some (rows @ [row], c, walker, mParents)
             else fetchLoop parentsOf colors graphVisible pathspec mRows (i + 1) (rows @ [row])
                    (fst (walkerNext walker)) (snd (walkerNext walker)) mParents)
      else Some (rows, c, walker, mParents))"
  by pat_completeness auto
termination
  by (relation "measure (\<lambda>(parentsOf, colors, graphVisible, pathspec, mRows, i, rows, c, walker, mParents).
          (if isValid c then 1 else 0) + (case walker of None \<Rightarrow> 0 | Some w \<Rightarrow> 2 * length w))")
     (auto simp: walkerNext_def isValid_def split: option.splits list.splits)

declare fetchLoop.simps [simp del]

section \<open>The model's state\<close>

text \<open>
  \<open>git::Reference\<close>: the invalid reference is \<open>None\<close>. \<open>git::Diff\<close>: only its validity
  is read. \<open>QFutureWatcher<git::Diff>\<close>: whether the future has finished, and the
  results it holds (none after a cancelled run or with no future set).
\<close>

datatype Reference = Reference (isHead: bool) (target: commit)

datatype Diff = Diff (diffIsValid: bool)

datatype StatusWatcher = StatusWatcher (isFinished: bool) (results: "Diff list")

record CommitModel =
  mStatus :: StatusWatcher
  mPathspec :: string
  mRef :: "Reference option"
  mWalker :: "oid list option"
  mRows :: "Row list"
  mParents :: "Parent list"
  mRefsAll :: bool
  mSortDate :: bool
  mCleanStatus :: bool
  mGraphVisible :: bool
  mCompactMode :: bool

definition status :: "StatusWatcher \<Rightarrow> Diff" where
  "status w =
     (if \<not> isFinished w then Diff False
      else case results w of [] \<Rightarrow> Diff False | d # ds \<Rightarrow> d)"

definition canFetchMore :: "CommitModel \<Rightarrow> bool" where
  "canFetchMore st = (mWalker st \<noteq> None)"

definition fetchMore ::
  "(commit \<Rightarrow> commit list) \<Rightarrow> QColor list \<Rightarrow> CommitModel \<Rightarrow> CommitModel option" where
  "fetchMore parentsOf colors st = do {
     (rows, c, walker, parents) \<leftarrow>
        fetchLoop parentsOf colors (mGraphVisible st) (mPathspec st) (mRows st) 0 []
          (fst (walkerNext (mWalker st))) (snd (walkerNext (mWalker st))) (mParents st);
     Some (st\<lparr> mRows := mRows st @ rows,
              mParents := parents,
              mWalker := (if \<not> isValid c then None else walker) \<rparr>)
   }"

section \<open>resetWalker\<close>

text \<open>
  \<open>GIT_SORT_NONE\<close>, \<open>GIT_SORT_TOPOLOGICAL\<close> and \<open>GIT_SORT_TIME\<close> are the bits 0, 1
  and 2; the two flags are or-ed into a zero, which is their sum.
\<close>

definition sortMode :: "CommitModel \<Rightarrow> nat" where
  "sortMode st =
     (if mGraphVisible st then 1 + (if mSortDate st then 2 else 0)
      else if \<not> mSortDate st then 1 else 0)"

text \<open>
  \<open>walk\<close> stands for the repository: the commits that the walker made by
  \<open>mRef.walker(sort)\<close>, with the upstream, \<open>MERGE_HEAD\<close> and (under \<open>mRefsAll\<close>) every
  reference but the stashes pushed, yields under the path filter.
\<close>

text \<open>Update status row.\<close>

definition updateStatusRow :: "QColor list \<Rightarrow> CommitModel \<Rightarrow> CommitModel option" where
  "updateStatusRow colors st =
     (let head = (case mRef st of None \<Rightarrow> True | Some r \<Rightarrow> isHead r);
          valid = (mCleanStatus st \<or> \<not> isFinished (mStatus st)
                     \<or> diffIsValid (status (mStatus st)))
      in if head \<and> valid \<and> mPathspec st = [] then
           (case mRef st of
              Some r \<Rightarrow>
                if mGraphVisible st \<and> isFinished (mStatus st) then do {
                  col \<leftarrow> nextColor colors (mParents st);
                  Some (st\<lparr> mParents := mParents st @ [Parent (target r) col True],
                           mRows := mRows st @
                             [Row None [[Segment Bottom kTaintedColor, Segment Dot InvalidColor]]] \<rparr>)
                } else Some (st\<lparr> mRows := mRows st @ [Row None []] \<rparr>)
            | None \<Rightarrow> Some (st\<lparr> mRows := mRows st @ [Row None []] \<rparr>))
         else Some st)"

text \<open>Begin walking commits: only a valid reference makes a new walker.\<close>

definition beginWalking ::
  "(Reference \<Rightarrow> nat \<Rightarrow> bool \<Rightarrow> string \<Rightarrow> oid list) \<Rightarrow> CommitModel \<Rightarrow> CommitModel" where
  "beginWalking walk st =
     (case mRef st of
        None \<Rightarrow> st
      | Some r \<Rightarrow> st\<lparr> mWalker := Some (walk r (sortMode st) (mRefsAll st) (mPathspec st)) \<rparr>)"

definition resetWalker ::
  "(commit \<Rightarrow> commit list) \<Rightarrow> QColor list \<Rightarrow> (Reference \<Rightarrow> nat \<Rightarrow> bool \<Rightarrow> string \<Rightarrow> oid list)
     \<Rightarrow> CommitModel \<Rightarrow> CommitModel option" where
  "resetWalker parentsOf colors walk st = do {
     st \<leftarrow> updateStatusRow colors (st\<lparr> mParents := [], mRows := [] \<rparr>);
     let st = beginWalking walk st;
     if canFetchMore st then fetchMore parentsOf colors st else Some st
   }"

section \<open>Notions the properties are stated with\<close>

text \<open>
  The usage count of a colour across the frontier. \<open>nextColor\<close> keys its counts by
  \<open>QColor::name()\<close>, so a lane uses a palette colour when the two names agree.
\<close>

definition usageCount :: "Parent list \<Rightarrow> QColor \<Rightarrow> nat" where
  "usageCount frontier c = length (filter (\<lambda>parent. name (color parent) = name c) frontier)"

text \<open>
  The segments that one path from lane \<open>i\<close> to lane \<open>j\<close> puts into column \<open>k\<close>, as
  the specification words them: out to the left, out to the right, or out the bottom.
\<close>

definition specPath :: "nat \<Rightarrow> nat \<Rightarrow> nat \<Rightarrow> GraphSegment list" where
  "specPath i j k =
     (if j < i then
        (if k = j then [RightIn] else if j < k \<and> k < i then [Cross]
         else if k = i then [LeftOut] else [])
      else if j > i then
        (if k = i then [RightOut] else if i < k \<and> k < j then [Cross]
         else if k = j then [LeftIn] else [])
      else (if k = i then [Bottom] else []))"


text \<open>The same segments with the colour of the path.\<close>

definition pathSegments :: "nat \<Rightarrow> nat \<Rightarrow> QColor \<Rightarrow> nat \<Rightarrow> Segment list" where
  "pathSegments i j col k =
     (if j < i then
        (if k = j then [Segment RightIn col]
         else if j < k \<and> k < i then [Segment Cross col]
         else if k = i then [Segment LeftOut col] else [])
      else if i < j then
        (if k = i then [Segment RightOut col]
         else if i < k \<and> k < j then [Segment Cross col]
         else if k = j then [Segment LeftIn col] else [])
      else (if k = i then [Segment Bottom col] else []))"


text \<open>
  The kinds that the paths of lane \<open>i\<close> put into column \<open>k\<close>: one path for each
  successor of the lane that has a lane in the updated frontier, in the order of the
  successors.
\<close>

definition laneKinds ::
  "(commit \<Rightarrow> commit list) \<Rightarrow> Parent list \<Rightarrow> commit \<Rightarrow> Parent \<Rightarrow> nat \<Rightarrow> nat
     \<Rightarrow> GraphSegment list" where
  "laneKinds parentsOf frontier' c parent i k =
     concat (map (\<lambda>s. case indexOf frontier' s of None \<Rightarrow> [] | Some j \<Rightarrow> specPath i j k)
                 (successorsOf parentsOf c parent))"


text \<open>The same with colours, and a column read as empty beyond the vector.\<close>

definition laneSegments ::
  "(commit \<Rightarrow> commit list) \<Rightarrow> Parent list \<Rightarrow> commit \<Rightarrow> Parent \<Rightarrow> nat \<Rightarrow> nat \<Rightarrow> Segment list" where
  "laneSegments parentsOf frontier' c parent i k =
     concat (map (\<lambda>s. case indexOf frontier' s of
                         None \<Rightarrow> []
                       | Some j \<Rightarrow>
                           pathSegments i j
                             (if length (successorsOf parentsOf c parent) = 1
                              then taintedColor parent c else color (frontier' ! j)) k)
                 (successorsOf parentsOf c parent))"


definition columnAt :: "Column list \<Rightarrow> nat \<Rightarrow> Column" where
  "columnAt cols k = (if k < length cols then cols ! k else [])"


section \<open>An example repository\<close>

text \<open>
  Commit 3 merges commits 2 and 1, which both have the parent 0; commit 0 has no parent.
  The palette has two colours.
\<close>

definition exampleParents :: "commit \<Rightarrow> commit list" where
  "exampleParents c =
     (if c = Some 3 then [Some 2, Some 1]
      else if c = Some 2 then [Some 0]
      else if c = Some 1 then [Some 0]
      else [])"

definition examplePalette :: "QColor list" where
  "examplePalette = [QColor ''#ff0000'' 255, QColor ''#00ff00'' 255]"

text \<open>A linear history: commit \<open>n + 1\<close> has the one parent \<open>n\<close>, commit 0 has none.\<close>

definition chainParents :: "commit \<Rightarrow> commit list" where
  "chainParents c = (case c of Some (Suc n) \<Rightarrow> [Some n] | _ \<Rightarrow> [])"

text \<open>
  The model as \<open>resetWalker\<close> leaves it before its call of \<open>fetchMore\<close> when a branch
  other than HEAD is selected: no rows, no lanes, the graph visible, no path filter,
  and a walker that will yield the commits \<open>w\<close>.
\<close>

definition walking :: "oid list \<Rightarrow> CommitModel" where
  "walking w =
     \<lparr> mStatus = StatusWatcher True [], mPathspec = [],
       mRef = Some (Reference False (case w of [] \<Rightarrow> None | x # xs \<Rightarrow> Some x)),
       mWalker = Some w,
       mRows = [], mParents = [],
       mRefsAll = True, mSortDate = True, mCleanStatus = False,
       mGraphVisible = True, mCompactMode = False \<rparr>"

text \<open>\<open>rowCount\<close> of the source, and \<open>n\<close> calls of \<open>fetchMore\<close> in a row.\<close>

definition rowCount :: "CommitModel \<Rightarrow> nat" where
  "rowCount st = length (mRows st)"

fun fetchTimes ::
  "nat \<Rightarrow> (commit \<Rightarrow> commit list) \<Rightarrow> QColor list \<Rightarrow> CommitModel \<Rightarrow> CommitModel option" where
  "fetchTimes 0 parentsOf colors st = Some st"
| "fetchTimes (Suc n) parentsOf colors st =
     (case fetchMore parentsOf colors st of
        None \<Rightarrow> None
      | Some st' \<Rightarrow> fetchTimes n parentsOf colors st')"

text \<open>The segment kinds of row \<open>r\<close>, column by column.\<close>

definition rowKindsAt :: "nat \<Rightarrow> CommitModel \<Rightarrow> GraphSegment list list" where
  "rowKindsAt r st = map (map segment) (rowColumns (mRows st ! r))"

text \<open>A commit object that names the same parent more than once.\<close>

definition repeatedParents :: "commit \<Rightarrow> commit list" where
  "repeatedParents c =
     (if c = Some 3 then [Some 1, Some 1]
      else if c = Some 2 then [Some 1, Some 1, Some 1]
      else [])"

definition frontierCommits :: "CommitModel \<Rightarrow> commit list" where
  "frontierCommits st = map commit (mParents st)"

text \<open>No reference selected, no walker, and the clean-status setting on.\<close>

definition noReference :: CommitModel where
  "noReference =
     \<lparr> mStatus = StatusWatcher True [], mPathspec = [],
       mRef = None, mWalker = None,
       mRows = [], mParents = [],
       mRefsAll = True, mSortDate = True, mCleanStatus = True,
       mGraphVisible = True, mCompactMode = False \<rparr>"

definition noWalk :: "Reference \<Rightarrow> nat \<Rightarrow> bool \<Rightarrow> string \<Rightarrow> oid list" where
  "noWalk r sortBits refsAll pathspec = []"

text \<open>HEAD selected at commit 2 of the linear history, with uncommitted changes found.\<close>

definition onHead :: CommitModel where
  "onHead =
     \<lparr> mStatus = StatusWatcher True [Diff True], mPathspec = [],
       mRef = Some (Reference True (Some 2)), mWalker = None,
       mRows = [], mParents = [],
       mRefsAll = True, mSortDate = True, mCleanStatus = False,
       mGraphVisible = True, mCompactMode = False \<rparr>"

text \<open>
  The same model as \<open>resetWalker\<close> hands it to \<open>fetchMore\<close>, and the rows it has
  after the walk 2, 1, 0.
\<close>

definition headRows :: "Row list" where
  "headRows =
     [Row None [[Segment Bottom kTaintedColor, Segment Dot InvalidColor]],
      Row (Some 2) [[Segment Top kTaintedColor, Segment Bottom (QColor ''#ff0000'' 255),
                     Segment Dot kTaintedColor]],
      Row (Some 1) [[Segment Top (QColor ''#ff0000'' 255),
                     Segment Bottom (QColor ''#ff0000'' 255),
                     Segment Dot (QColor ''#ff0000'' 255)]],
      Row (Some 0) [[Segment Top (QColor ''#ff0000'' 255),
                     Segment Dot (QColor ''#ff0000'' 255)]]]"

definition headStarted :: CommitModel where
  "headStarted =
     onHead\<lparr> mWalker := Some [2, 1, 0],
              mRows := [Row None [[Segment Bottom kTaintedColor, Segment Dot InvalidColor]]],
              mParents := [Parent (Some 2) (QColor ''#ff0000'' 255) True] \<rparr>"

definition headWalk :: "Reference \<Rightarrow> nat \<Rightarrow> bool \<Rightarrow> string \<Rightarrow> oid list" where
  "headWalk r sortBits refsAll pathspec = [2, 1, 0]"

section \<open>Properties of nextColor\<close>

lemma valueOf_increment:
  "valueOf (increment counts k) k' = (if k' = k then valueOf counts k + 1 else valueOf counts k')"
  by (simp add: valueOf_def increment_def)

lemma valueOf_fold_increment:
  "valueOf (fold (\<lambda>parent counts. increment counts (name (color parent))) ps counts) k =
     valueOf counts k + length (filter (\<lambda>parent. name (color parent) = k) ps)"
  by (induction ps arbitrary: counts) (auto simp: valueOf_increment)

lemma valueOf_colorCounts:
  "valueOf (colorCounts ps) (name c) = usageCount ps c"
  by (simp add: colorCounts_def usageCount_def valueOf_fold_increment) (simp add: valueOf_def)

lemma usageCount_le: "usageCount ps c \<le> length ps"
  by (simp add: usageCount_def)

lemma nextColorLoop_found:
  "find (\<lambda>c. valueOf counts (name c) = count) colors = Some c \<Longrightarrow>
     nextColorLoop counts colors count = Some (count, c)"
  by (subst nextColorLoop.simps) simp

lemma nextColorLoop_skip:
  "find (\<lambda>c. valueOf counts (name c) = count) colors = None \<Longrightarrow>
     nextColorLoop counts colors count = nextColorLoop counts colors (count + 1)"
  by (subst nextColorLoop.simps) simp

lemma nextColorLoop_min:
  assumes "colors \<noteq> []"
    and "count \<le> Min ((\<lambda>c. valueOf counts (name c)) ` set colors)"
  shows "nextColorLoop counts colors count =
     map_option (Pair (Min ((\<lambda>c. valueOf counts (name c)) ` set colors)))
       (find (\<lambda>c. valueOf counts (name c) = Min ((\<lambda>c. valueOf counts (name c)) ` set colors)) colors)"
  using assms(2)
proof (induction "Min ((\<lambda>c. valueOf counts (name c)) ` set colors) - count" arbitrary: count)
  case 0
  define m where "m = Min ((\<lambda>c. valueOf counts (name c)) ` set colors)"
  from 0 have eq: "count = m" by (simp add: m_def)
  have "m \<in> (\<lambda>c. valueOf counts (name c)) ` set colors"
    unfolding m_def using assms(1) by (intro Min_in) auto
  then obtain c where "find (\<lambda>c. valueOf counts (name c) = m) colors = Some c"
    by (cases "find (\<lambda>c. valueOf counts (name c) = m) colors") (auto simp: find_None_iff)
  then show ?case
    using nextColorLoop_found[of counts m colors c] by (simp add: eq m_def)
next
  case (Suc d)
  define m where "m = Min ((\<lambda>c. valueOf counts (name c)) ` set colors)"
  from Suc have lt: "count < m" by (simp add: m_def)
  have "\<forall>c\<in>set colors. m \<le> valueOf counts (name c)"
    unfolding m_def by auto
  with lt have "find (\<lambda>c. valueOf counts (name c) = count) colors = None"
    by (auto simp: find_None_iff)
  then have "nextColorLoop counts colors count = nextColorLoop counts colors (count + 1)"
    by (rule nextColorLoop_skip)
  also have "\<dots> = map_option (Pair m) (find (\<lambda>c. valueOf counts (name c) = m) colors)"
    unfolding m_def using Suc(2) lt by (intro Suc(1)) (auto simp: m_def)
  finally show ?case by (simp add: m_def)
qed

lemma nextColorLoop_empty: "nextColorLoop counts [] count = None"
proof -
  have "nextColorLoop counts colors count = Some y \<Longrightarrow> colors \<noteq> []" for colors y
    by (rule nextColorLoop.raw_induct[where P = "\<lambda>counts colors count y. colors \<noteq> []"])
       (auto split: option.splits)
  then show ?thesis by (cases "nextColorLoop counts [] count") auto
qed

lemma least_used_found:
  assumes "colors \<noteq> []"
  shows "\<exists>c. find (\<lambda>c. usageCount ps c = Min (usageCount ps ` set colors)) colors = Some c"
proof -
  have "Min (usageCount ps ` set colors) \<in> usageCount ps ` set colors"
    using assms by (intro Min_in) auto
  then show ?thesis
    by (cases "find (\<lambda>c. usageCount ps c = Min (usageCount ps ` set colors)) colors")
       (auto simp: find_None_iff)
qed

lemma nextColorLoop_least_used:
  assumes "colors \<noteq> []"
  shows "nextColorLoop (colorCounts ps) colors 0 =
     map_option (Pair (Min (usageCount ps ` set colors)))
       (find (\<lambda>c. usageCount ps c = Min (usageCount ps ` set colors)) colors)"
  using nextColorLoop_min[OF assms, of 0 "colorCounts ps"]
  by (simp add: valueOf_colorCounts)

lemma nextColor_least_used:
  assumes "colors \<noteq> []"
  shows "nextColor colors ps = find (\<lambda>c. usageCount ps c = Min (usageCount ps ` set colors)) colors"
  by (simp add: nextColor_def nextColorLoop_least_used[OF assms] option.map_comp comp_def option.map_ident)

lemma nextColor_Some:
  assumes "colors \<noteq> []"
  shows "\<exists>c. nextColor colors ps = Some c \<and> c \<in> set colors"
  using least_used_found[OF assms, of ps] nextColor_least_used[OF assms, of ps]
  by (auto simp: find_Some_iff)

text \<open>
  C3. For a non-empty palette, \<open>nextColor\<close> returns the first colour, in palette order,
  whose usage count across the frontier is the minimum over the palette; the search
  that starts at count 0 and moves up by one stops at that minimum. The result depends
  on the frontier and the palette only.
\<close>

theorem nextColor_first_least_used:
  assumes "colors \<noteq> []"
  shows "\<exists>c. nextColor colors frontier = Some c
           \<and> nextColorLoop (colorCounts frontier) colors 0
               = Some (Min (usageCount frontier ` set colors), c)
           \<and> find (\<lambda>c. usageCount frontier c = Min (usageCount frontier ` set colors)) colors
               = Some c"
  using least_used_found[OF assms, of frontier]
  by (auto simp: nextColor_least_used[OF assms] nextColorLoop_least_used[OF assms])

theorem nextColor_first_least_used_witness:
  "[QColor ''#ff0000'' 255, QColor ''#00ff00'' 255] \<noteq> []
   \<and> nextColor [QColor ''#ff0000'' 255, QColor ''#00ff00'' 255]
        [Parent (Some 7) (QColor ''#ff0000'' 255) False] = Some (QColor ''#00ff00'' 255)"
  using nextColor_first_least_used
          [of "[QColor ''#ff0000'' 255, QColor ''#00ff00'' 255]"
              "[Parent (Some 7) (QColor ''#ff0000'' 255) False]"]
  by (simp add: usageCount_def)

text \<open>
  C10. For a non-empty palette \<open>nextColor\<close> returns, the colour it returns is in the
  palette, and the count the search has reached is at most the number of frontier
  entries. For an empty palette the search never returns.
\<close>

theorem nextColor_terminates:
  "(colors \<noteq> [] \<longrightarrow>
      (\<exists>count c. nextColorLoop (colorCounts frontier) colors 0 = Some (count, c)
          \<and> nextColor colors frontier = Some c \<and> c \<in> set colors \<and> count \<le> length frontier))
   \<and> nextColorLoop counts [] n = None \<and> nextColor [] frontier = None"
proof (intro conjI impI)
  assume ne: "colors \<noteq> []"
  obtain c where c: "find (\<lambda>c. usageCount frontier c = Min (usageCount frontier ` set colors)) colors = Some c"
    using least_used_found[OF ne] by blast
  then have mem: "c \<in> set colors" and use: "usageCount frontier c = Min (usageCount frontier ` set colors)"
    by (auto simp: find_Some_iff in_set_conv_nth)
  show "\<exists>count c. nextColorLoop (colorCounts frontier) colors 0 = Some (count, c)
          \<and> nextColor colors frontier = Some c \<and> c \<in> set colors \<and> count \<le> length frontier"
    using c mem usageCount_le[of frontier c]
    by (simp add: nextColorLoop_least_used[OF ne] nextColor_least_used[OF ne] use[symmetric])
qed (simp_all add: nextColor_def nextColorLoop_empty)

theorem nextColor_terminates_witness:
  "[QColor ''#ff0000'' 255] \<noteq> []
   \<and> nextColorLoop (colorCounts [Parent (Some 7) (QColor ''#ff0000'' 255) False])
        [QColor ''#ff0000'' 255] 0 = Some (1, QColor ''#ff0000'' 255)
   \<and> nextColor [QColor ''#ff0000'' 255] [Parent (Some 7) (QColor ''#ff0000'' 255) False]
        = Some (QColor ''#ff0000'' 255)
   \<and> nextColor [] [Parent (Some 7) (QColor ''#ff0000'' 255) False] = None"
proof -
  note t = nextColor_terminates
          [of "[QColor ''#ff0000'' 255]" "[Parent (Some 7) (QColor ''#ff0000'' 255) False]"
              Map.empty 0]
  from t[THEN conjunct1]
  have "nextColorLoop (colorCounts [Parent (Some 7) (QColor ''#ff0000'' 255) False])
          [QColor ''#ff0000'' 255] 0 = Some (1, QColor ''#ff0000'' 255)
        \<and> nextColor [QColor ''#ff0000'' 255] [Parent (Some 7) (QColor ''#ff0000'' 255) False]
          = Some (QColor ''#ff0000'' 255)"
    by (simp add: colorCounts_def increment_def valueOf_def nextColorLoop.simps)
  with t[THEN conjunct2, THEN conjunct2] show ?thesis by simp
qed

text \<open>The equations that evaluate the model on a concrete input.\<close>

lemmas eval_simps = layoutCommit_def addRoot_def replacementsOf_def contains_def replaceCommit_def
  nextColor_def nextColorLoop.simps colorCounts_def increment_def valueOf_def
  columns_def addOutgoing_def successorsOf_def addPath_def addSegment_def taintedColor_def
  exampleParents_def examplePalette_def Let_def


section \<open>Lists, loops and columns\<close>

subsection \<open>indexOf\<close>

lemma indexOf_None_iff: "indexOf ps c = None \<longleftrightarrow> c \<notin> commit ` set ps"
  by (induction ps) auto

lemma indexOf_Some_nth:
  "indexOf ps c = Some i \<Longrightarrow> i < length ps \<and> commit (ps ! i) = c"
  by (induction ps arbitrary: i) (auto split: if_splits)

lemma indexOf_Some_first:
  "indexOf ps c = Some i \<Longrightarrow> j < i \<Longrightarrow> commit (ps ! j) \<noteq> c"
proof (induction ps arbitrary: i j)
  case Nil
  then show ?case by simp
next
  case (Cons p ps)
  then show ?case by (cases j) (auto split: if_splits)
qed

lemma indexOf_le:
  "i < length ps \<Longrightarrow> commit (ps ! i) = c \<Longrightarrow> \<exists>j\<le>i. indexOf ps c = Some j"
proof (induction ps arbitrary: i)
  case Nil
  then show ?case by simp
next
  case (Cons p ps)
  show ?case
  proof (cases i)
    case 0
    with Cons.prems show ?thesis by simp
  next
    case (Suc k)
    with Cons.prems Cons.IH[of k] show ?thesis by auto
  qed
qed

lemma indexOf_distinct:
  "distinct (map commit ps) \<Longrightarrow> i < length ps \<Longrightarrow> indexOf ps (commit (ps ! i)) = Some i"
proof (induction ps arbitrary: i)
  case Nil
  then show ?case by simp
next
  case (Cons p ps)
  show ?case
  proof (cases i)
    case 0
    then show ?thesis by simp
  next
    case (Suc k)
    with Cons.prems have "commit p \<noteq> commit (ps ! k)" by (auto simp: image_iff)
    with Suc Cons.prems Cons.IH[of k] show ?thesis by simp
  qed
qed

lemma indexOf_append:
  "indexOf (ps @ qs) c =
     (case indexOf ps c of
        Some i \<Rightarrow> Some i
      | None \<Rightarrow> map_option (\<lambda>j. length ps + j) (indexOf qs c))"
proof (induction ps)
  case Nil
  show ?case by (cases "indexOf qs c") simp_all
next
  case (Cons p ps)
  show ?case
    using Cons.IH by (cases "indexOf ps c"; cases "indexOf qs c") simp_all
qed

subsection \<open>forEach\<close>

lemma forEach_append:
  "forEach body (xs @ ys) s =
     (case forEach body xs s of None \<Rightarrow> None | Some s' \<Rightarrow> forEach body ys s')"
  by (induction xs arbitrary: s) (auto split: option.splits)

lemma forEach_invariant:
  assumes "I s"
    and "\<And>x s. x \<in> set xs \<Longrightarrow> I s \<Longrightarrow> \<exists>s'. body x s = Some s' \<and> I s'"
  shows "\<exists>s'. forEach body xs s = Some s' \<and> I s'"
  using assms
proof (induction xs arbitrary: s)
  case Nil
  then show ?case by simp
next
  case (Cons x xs)
  from Cons.prems(2)[of x s] Cons.prems(1) obtain s1 where s1: "body x s = Some s1" "I s1"
    by auto
  from Cons.IH[OF s1(2)] Cons.prems(2) show ?case using s1 by auto
qed

lemma forEach_preserves:
  assumes "forEach body xs s = Some s'" and "I s"
    and "\<And>x s s'. x \<in> set xs \<Longrightarrow> I s \<Longrightarrow> body x s = Some s' \<Longrightarrow> I s'"
  shows "I s'"
  using assms
proof (induction xs arbitrary: s)
  case Nil
  then show ?case by simp
next
  case (Cons x xs)
  from Cons.prems(1) obtain s1 where s1: "body x s = Some s1" "forEach body xs s1 = Some s'"
    by (auto split: option.splits)
  have "I s1" using Cons.prems(3)[of x s s1] Cons.prems(2) s1(1) by simp
  show ?case
  proof (rule Cons.IH[OF s1(2) \<open>I s1\<close>])
    fix y t t' assume "y \<in> set xs" "I t" "body y t = Some t'"
    then show "I t'" using Cons.prems(3)[of y t t'] by simp
  qed
qed

subsection \<open>addSegment\<close>

lemma addSegment_Some:
  "i < length cols \<Longrightarrow> addSegment cols i s = Some (cols[i := cols ! i @ [s]])"
  by (simp add: addSegment_def)

lemma addSegment_length:
  "addSegment cols i s = Some cols' \<Longrightarrow> length cols' = length cols"
  by (auto simp: addSegment_def split: if_splits)

lemma addSegment_nth:
  "addSegment cols i s = Some cols' \<Longrightarrow> k < length cols \<Longrightarrow>
     cols' ! k = cols ! k @ (if k = i then [s] else [])"
  by (auto simp: addSegment_def split: if_splits)

text \<open>A run of \<open>columns[j] << s\<close> over \<open>j = a, \<dots>, b - 1\<close>.\<close>

lemma forEach_addSegment_upt:
  assumes "b \<le> length cols"
  shows "\<exists>cols'. forEach (\<lambda>j columns. addSegment columns j (g j)) [a ..< b] cols = Some cols'
           \<and> length cols' = length cols
           \<and> (\<forall>k<length cols. cols' ! k = cols ! k @ (if a \<le> k \<and> k < b then [g k] else []))"
  using assms
proof (induction b)
  case 0
  then show ?case by simp
next
  case (Suc b)
  show ?case
  proof (cases "a \<le> b")
    case False
    then show ?thesis by simp
  next
    case True
    from Suc obtain cols1 where c1:
      "forEach (\<lambda>j columns. addSegment columns j (g j)) [a ..< b] cols = Some cols1"
      "length cols1 = length cols"
      "\<forall>k<length cols. cols1 ! k = cols ! k @ (if a \<le> k \<and> k < b then [g k] else [])"
      by auto
    have b: "b < length cols1" using Suc.prems c1(2) by simp
    have "forEach (\<lambda>j columns. addSegment columns j (g j)) [a ..< Suc b] cols
            = Some (cols1[b := cols1 ! b @ [g b]])"
      using True c1(1) b by (simp add: forEach_append addSegment_Some)
    moreover have "\<forall>k<length cols. (cols1[b := cols1 ! b @ [g b]]) ! k
            = cols ! k @ (if a \<le> k \<and> k < Suc b then [g k] else [])"
      using c1(2,3) True by (auto simp: nth_list_update less_Suc_eq)
    ultimately show ?thesis using c1(2) by simp
  qed
qed

section \<open>Paths of a row\<close>

lemma addPath_not_found:
  "indexOf frontier s = None \<Longrightarrow> addPath frontier c parent i succs s cols = Some cols"
  by (simp add: addPath_def)

lemma addPath_left:
  assumes "indexOf frontier s = Some j" and "i < length cols" and "j < i"
  shows "\<exists>cols'. addPath frontier c parent i succs s cols = Some cols'
           \<and> length cols' = length cols
           \<and> (\<forall>k<length cols. cols' ! k = cols ! k @
                 pathSegments i j (if length succs = 1 then taintedColor parent c
                                   else color (frontier ! j)) k)"
proof -
  define col where "col = (if length succs = 1 then taintedColor parent c else color (frontier ! j))"
  define cols1 where "cols1 = cols[j := cols ! j @ [Segment RightIn col]]"
  have s1: "addSegment cols j (Segment RightIn col) = Some cols1"
    using assms by (simp add: addSegment_Some cols1_def)
  have len1: "length cols1 = length cols" by (simp add: cols1_def)
  obtain cols2 where s2:
    "forEach (\<lambda>j columns. addSegment columns j (Segment Cross col)) [j + 1 ..< i] cols1 = Some cols2"
    "length cols2 = length cols1"
    "\<forall>k<length cols1. cols2 ! k = cols1 ! k @ (if j + 1 \<le> k \<and> k < i then [Segment Cross col] else [])"
    using forEach_addSegment_upt[of i cols1 "\<lambda>_. Segment Cross col" "j + 1"] assms(2) len1
    by auto
  define cols3 where "cols3 = cols2[i := cols2 ! i @ [Segment LeftOut col]]"
  have s3: "addSegment cols2 i (Segment LeftOut col) = Some cols3"
    using assms s2(2) len1 by (simp add: addSegment_Some cols3_def)
  have run: "addPath frontier c parent i succs s cols = Some cols3"
    using assms(1,3) s1 s2(1) s3 by (simp add: addPath_def col_def Let_def)
  have "\<forall>k<length cols. cols3 ! k = cols ! k @ pathSegments i j col k"
    using s2(2,3) len1 assms(2,3)
    by (auto simp: cols3_def cols1_def nth_list_update pathSegments_def)
  then show ?thesis
    using run s2(2) len1 by (simp add: cols3_def col_def)
qed

lemma addPath_bottom:
  assumes "indexOf frontier s = Some i" and "i < length cols"
  shows "\<exists>cols'. addPath frontier c parent i succs s cols = Some cols'
           \<and> length cols' = length cols
           \<and> (\<forall>k<length cols. cols' ! k = cols ! k @
                 pathSegments i i (if length succs = 1 then taintedColor parent c
                                   else color (frontier ! i)) k)"
  using assms
  by (auto simp: addPath_def Let_def addSegment_Some nth_list_update pathSegments_def)

lemma addPath_right:
  assumes "indexOf frontier s = Some j" and "i < j" and "j \<le> length cols"
  shows "\<exists>cols'. addPath frontier c parent i succs s cols = Some cols'
           \<and> length cols' = max (length cols) (Suc j)
           \<and> (\<forall>k<length cols'. cols' ! k = (cols @ [[]]) ! k @
                 pathSegments i j (if length succs = 1 then taintedColor parent c
                                   else color (frontier ! j)) k)"
proof -
  define col where "col = (if length succs = 1 then taintedColor parent c else color (frontier ! j))"
  define cols1 where "cols1 = cols[i := cols ! i @ [Segment RightOut col]]"
  have i: "i < length cols" using assms by simp
  have s1: "addSegment cols i (Segment RightOut col) = Some cols1"
    using i by (simp add: addSegment_Some cols1_def)
  have len1: "length cols1 = length cols" by (simp add: cols1_def)
  obtain cols2 where s2:
    "forEach (\<lambda>j columns. addSegment columns j (Segment Cross col)) [i + 1 ..< j] cols1 = Some cols2"
    "length cols2 = length cols1"
    "\<forall>k<length cols1. cols2 ! k = cols1 ! k @ (if i + 1 \<le> k \<and> k < j then [Segment Cross col] else [])"
    using forEach_addSegment_upt[of j cols1 "\<lambda>_. Segment Cross col" "i + 1"] assms(3) len1
    by auto
  define cols3 where "cols3 = (if j = length cols2 then cols2 @ [[]] else cols2)"
  define cols4 where "cols4 = cols3[j := cols3 ! j @ [Segment LeftIn col]]"
  have len3: "length cols3 = max (length cols) (Suc j)"
    using assms(3) s2(2) len1 by (auto simp: cols3_def)
  have s4: "addSegment cols3 j (Segment LeftIn col) = Some cols4"
    using len3 by (simp add: addSegment_Some cols4_def)
  have run: "addPath frontier c parent i succs s cols = Some cols4"
    using assms(1,2) s1 s2(1) s4 by (simp add: addPath_def col_def Let_def cols3_def)
  have "cols4 ! k = (cols @ [[]]) ! k @ pathSegments i j col k" if "k < length cols4" for k
  proof (cases "k < length cols")
    case True
    then show ?thesis
      using s2(2,3) len1 assms(2,3) len3
      by (auto simp: cols4_def cols3_def cols1_def nth_list_update nth_append pathSegments_def)
  next
    case False
    with that len3 assms(3) have "k = j" "j = length cols" by (auto simp: cols4_def)
    then show ?thesis
      using s2(2) len1 assms(2)
      by (auto simp: cols4_def cols3_def nth_append pathSegments_def)
  qed
  then show ?thesis
    using run len3 by (simp add: cols4_def col_def)
qed

lemma addPath_found:
  assumes "indexOf frontier s = Some j" and "i < length cols" and "j \<le> length cols"
  shows "\<exists>cols'. addPath frontier c parent i succs s cols = Some cols'
           \<and> length cols' = max (length cols) (Suc j)
           \<and> (\<forall>k<length cols'. cols' ! k = (cols @ [[]]) ! k @
                 pathSegments i j (if length succs = 1 then taintedColor parent c
                                   else color (frontier ! j)) k)"
proof -
  consider "j < i" | "j = i" | "i < j" by linarith
  then show ?thesis
  proof cases
    case 1
    with addPath_left[OF assms(1,2) 1, of c parent succs] assms(2) show ?thesis
      by (auto simp: nth_append max_def)
  next
    case 2
    with addPath_bottom[of frontier s i cols c parent succs] assms show ?thesis
      by (auto simp: nth_append max_def)
  next
    case 3
    with addPath_right[OF assms(1) 3 assms(3)] show ?thesis by simp
  qed
qed

lemma segment_pathSegments: "map segment (pathSegments i j col k) = specPath i j k"
  by (simp add: pathSegments_def specPath_def)

lemma segColor_pathSegments: "set (map segColor (pathSegments i j col k)) \<subseteq> {col}"
  by (simp add: pathSegments_def)

lemma length_pathSegments_source: "length (pathSegments i j col i) = 1"
  by (simp add: pathSegments_def)

section \<open>The whole row\<close>

lemma forEach_addSegment_fails:
  assumes "x \<in> set xs" and "length cols \<le> x"
  shows "forEach (\<lambda>j columns. addSegment columns j (g j)) xs cols = None"
  using assms
proof (induction xs arbitrary: cols)
  case Nil
  then show ?case by simp
next
  case (Cons y ys)
  show ?case
  proof (cases "addSegment cols y (g y)")
    case None
    then show ?thesis by simp
  next
    case (Some cols1)
    then have y: "y < length cols" and len: "length cols1 = length cols"
      by (auto simp: addSegment_def split: if_splits)
    with Cons.prems have "x \<in> set ys" by auto
    from Cons.IH[OF this, of cols1] Cons.prems(2) len Some show ?thesis by simp
  qed
qed

lemma addPath_Some_in_range:
  assumes "addPath frontier' c parent i succs s cols = Some cols'"
    and "indexOf frontier' s = Some j" and "i < length cols"
  shows "j \<le> length cols"
proof (rule ccontr)
  assume "\<not> j \<le> length cols"
  then have gt: "length cols < j" by simp
  with assms(3) have ij: "i < j" by simp
  define col where "col = (if length succs = 1 then taintedColor parent c else color (frontier' ! j))"
  define cols1 where "cols1 = cols[i := cols ! i @ [Segment RightOut col]]"
  have s1: "addSegment cols i (Segment RightOut col) = Some cols1"
    using assms(3) by (simp add: addSegment_Some cols1_def)
  have "length cols \<in> set [i + 1 ..< j]" using assms(3) gt by simp
  moreover have "length cols1 \<le> length cols" by (simp add: cols1_def)
  ultimately have "forEach (\<lambda>j columns. addSegment columns j (Segment Cross col)) [i + 1 ..< j] cols1
      = None"
    by (rule forEach_addSegment_fails)
  with s1 ij assms(2) have "addPath frontier' c parent i succs s cols = None"
    by (simp add: addPath_def Let_def col_def)
  with assms(1) show False by simp
qed

lemma columnAt_append_empty: "columnAt (cols @ [[]]) k = columnAt cols k"
  by (auto simp: columnAt_def nth_append)

lemma pathSegments_beyond: "i < k \<Longrightarrow> j < k \<Longrightarrow> pathSegments i j col k = []"
  by (simp add: pathSegments_def)

lemma addPath_columnAt:
  assumes "addPath frontier' c parent i succs s cols = Some cols'" and "i < length cols"
  shows "length cols \<le> length cols'
       \<and> columnAt cols' k = columnAt cols k @
           (case indexOf frontier' s of
              None \<Rightarrow> []
            | Some j \<Rightarrow> pathSegments i j (if length succs = 1 then taintedColor parent c
                                           else color (frontier' ! j)) k)"
proof (cases "indexOf frontier' s")
  case None
  with assms(1) show ?thesis by (simp add: addPath_not_found)
next
  case (Some j)
  have j: "j \<le> length cols" by (rule addPath_Some_in_range[OF assms(1) Some assms(2)])
  from addPath_found[OF Some assms(2) j, of c parent succs] assms(1)
  have r: "length cols' = max (length cols) (Suc j)"
    "\<forall>k<length cols'. cols' ! k = (cols @ [[]]) ! k @
        pathSegments i j (if length succs = 1 then taintedColor parent c
                          else color (frontier' ! j)) k"
    by auto
  have "columnAt cols' k = columnAt cols k @
        pathSegments i j (if length succs = 1 then taintedColor parent c
                          else color (frontier' ! j)) k"
  proof (cases "k < length cols'")
    case True
    with r(2) have "cols' ! k = (cols @ [[]]) ! k @
        pathSegments i j (if length succs = 1 then taintedColor parent c
                          else color (frontier' ! j)) k" by simp
    moreover have "(cols @ [[]]) ! k = columnAt cols k"
      using True r(1) j by (auto simp: columnAt_def nth_append max_def split: if_splits)
    ultimately show ?thesis using True by (simp add: columnAt_def)
  next
    case False
    with r(1) assms(2) have "i < k" "j < k" "\<not> k < length cols" by auto
    with False show ?thesis by (simp add: columnAt_def pathSegments_beyond)
  qed
  with r(1) Some show ?thesis by simp
qed

lemma forEach_addPath_columnAt:
  assumes "forEach (addPath frontier' c parent i succs) ss cols = Some cols'"
    and "i < length cols"
  shows "length cols \<le> length cols'
       \<and> columnAt cols' k = columnAt cols k @
           concat (map (\<lambda>s. case indexOf frontier' s of
                         None \<Rightarrow> []
                       | Some j \<Rightarrow> pathSegments i j (if length succs = 1 then taintedColor parent c
                                           else color (frontier' ! j)) k) ss)"
  using assms
proof (induction ss arbitrary: cols)
  case Nil
  then show ?case by simp
next
  case (Cons s ss)
  from Cons.prems(1) obtain cols1 where
    s1: "addPath frontier' c parent i succs s cols = Some cols1"
    and rest: "forEach (addPath frontier' c parent i succs) ss cols1 = Some cols'"
    by (auto split: option.splits)
  note a = addPath_columnAt[OF s1 Cons.prems(2), of k]
  then have "i < length cols1" using Cons.prems(2) by simp
  from Cons.IH[OF rest this] a show ?case by simp
qed

lemma forEach_addOutgoing_columnAt:
  assumes "forEach (addOutgoing parentsOf frontier' c parents) is cols = Some cols'"
    and "\<forall>i\<in>set is. i < length cols"
  shows "length cols \<le> length cols'
       \<and> columnAt cols' k = columnAt cols k @
           concat (map (\<lambda>i. laneSegments parentsOf frontier' c (parents ! i) i k) is)"
  using assms
proof (induction "is" arbitrary: cols)
  case Nil
  then show ?case by simp
next
  case (Cons i "is")
  from Cons.prems(1) obtain cols1 where
    s1: "addOutgoing parentsOf frontier' c parents i cols = Some cols1"
    and rest: "forEach (addOutgoing parentsOf frontier' c parents) is cols1 = Some cols'"
    by (auto split: option.splits)
  from s1 have "forEach (addPath frontier' c (parents ! i) i (successorsOf parentsOf c (parents ! i)))
      (successorsOf parentsOf c (parents ! i)) cols = Some cols1"
    by (simp add: addOutgoing_def Let_def)
  from forEach_addPath_columnAt[OF this, of k] Cons.prems(2)
  have a: "length cols \<le> length cols1"
    "columnAt cols1 k = columnAt cols k @ laneSegments parentsOf frontier' c (parents ! i) i k"
    by (simp_all add: laneSegments_def)
  have "\<forall>i\<in>set is. i < length cols1" using Cons.prems(2) a(1) by auto
  from Cons.IH[OF rest this] a show ?case by simp
qed

lemma forEach_addSegment_range:
  assumes "forEach (\<lambda>j columns. addSegment columns j (g j)) [0 ..< n] cols = Some cols'"
  shows "n \<le> length cols \<and> length cols' = length cols
       \<and> columnAt cols' k = columnAt cols k @ (if k < n then [g k] else [])"
proof -
  have n: "n \<le> length cols"
  proof (rule ccontr)
    assume "\<not> n \<le> length cols"
    then have "length cols \<in> set [0 ..< n]" by simp
    from forEach_addSegment_fails[OF this, of cols g] assms show False by simp
  qed
  from forEach_addSegment_upt[OF n, of g 0] assms have
    "length cols' = length cols"
    "\<forall>k<length cols. cols' ! k = cols ! k @ (if k < n then [g k] else [])"
    by auto
  with n show ?thesis by (auto simp: columnAt_def)
qed

lemma columns_result:
  assumes "columns parentsOf frontier' c parents root = Some row"
  shows "length parents \<le> length row
       \<and> columnAt row k =
           (if k < (if root then length parents - 1 else length parents)
            then [Segment Top (taintedColor (parents ! k) None)] else [])
           @ concat (map (\<lambda>i. laneSegments parentsOf frontier' c (parents ! i) i k)
                       [0 ..< length parents])
           @ (if k < length parents
              then [Segment (if commit (parents ! k) = c then Dot else Middle)
                      (taintedColor (parents ! k) None)] else [])"
proof -
  let ?count = "length parents"
  let ?incoming = "if root then length parents - 1 else length parents"
  from assms obtain cols1 cols2 where
    s1: "forEach (\<lambda>i columns.
                      addSegment columns i (Segment Top (taintedColor (parents ! i) None)))
                    [0 ..< ?incoming] (replicate ?count []) = Some cols1"
    and s2: "forEach (addOutgoing parentsOf frontier' c parents) [0 ..< ?count] cols1 = Some cols2"
    and s3: "forEach (\<lambda>i columns.
            addSegment columns i
              (Segment (if commit (parents ! i) = c then Dot else Middle)
                 (taintedColor (parents ! i) None)))
          [0 ..< ?count] cols2 = Some row"
    by (auto simp: columns_def Let_def bind_eq_Some_conv)
  from forEach_addSegment_range[OF s1, of k] have r1:
    "length cols1 = ?count"
    "columnAt cols1 k = (if k < ?incoming then [Segment Top (taintedColor (parents ! k) None)] else [])"
    by (auto simp: columnAt_def split: if_splits)
  have "\<forall>i\<in>set [0 ..< ?count]. i < length cols1" using r1(1) by simp
  from forEach_addOutgoing_columnAt[OF s2 this, of k] have r2:
    "length cols1 \<le> length cols2"
    "columnAt cols2 k = columnAt cols1 k @
           concat (map (\<lambda>i. laneSegments parentsOf frontier' c (parents ! i) i k) [0 ..< ?count])"
    by simp_all
  from forEach_addSegment_range[OF s3, of k] have r3:
    "length row = length cols2"
    "columnAt row k = columnAt cols2 k @
        (if k < ?count then [Segment (if commit (parents ! k) = c then Dot else Middle)
                      (taintedColor (parents ! k) None)] else [])"
    by simp_all
  from r1 r2 r3 show ?thesis
    by simp
qed

lemma segment_laneSegments:
  "map segment (laneSegments parentsOf frontier' c parent i k)
     = laneKinds parentsOf frontier' c parent i k"
  by (simp add: laneSegments_def laneKinds_def map_concat comp_def segment_pathSegments
        option.case_distrib[of "map segment"] cong: option.case_cong)

text \<open>
  C2. One path of the row, from source lane \<open>i\<close> to a successor. A successor with no
  lane in the updated frontier is skipped and nothing fails. A successor found at lane
  \<open>j\<close> (at most the number of columns, which is as far as the vector reaches) adds:
  for \<open>j < i\<close> a RightIn at column \<open>j\<close>, a Cross at every column strictly between
  and a LeftOut at column \<open>i\<close>; for \<open>j > i\<close> a RightOut at \<open>i\<close>, a Cross strictly
  between and a LeftIn at \<open>j\<close>, with one new column exactly when \<open>j\<close> is the column
  count; for \<open>j = i\<close> a single Bottom at \<open>i\<close>. Every other column is unchanged.
  The row that \<open>columns\<close> returns holds, in each column, the Top of the lane, then
  these segments for every lane in turn and every successor of the lane in turn, then
  the lane's Dot or Middle.
\<close>

theorem columns_path_segments:
  "(indexOf frontier successor = None \<longrightarrow>
      addPath frontier c parent i successors successor cols = Some cols)
   \<and> (indexOf frontier successor = Some j \<and> i < length cols \<and> j \<le> length cols \<longrightarrow>
       (\<exists>cols'. addPath frontier c parent i successors successor cols = Some cols'
          \<and> length cols' = (if j = length cols then length cols + 1 else length cols)
          \<and> (\<forall>k<length cols'.
                map segment (cols' ! k) = map segment ((cols @ [[]]) ! k) @ specPath i j k)))
   \<and> (columns parentsOf frontier c parents root = Some row \<longrightarrow>
       length parents \<le> length row
       \<and> (\<forall>k<length row.
             map segment (row ! k) =
               (if k < (if root then length parents - 1 else length parents) then [Top] else [])
               @ concat (map (\<lambda>i. laneKinds parentsOf frontier c (parents ! i) i k)
                           [0 ..< length parents])
               @ (if k < length parents
                  then [if commit (parents ! k) = c then Dot else Middle] else [])))"
proof (intro conjI impI)
  assume "indexOf frontier successor = None"
  then show "addPath frontier c parent i successors successor cols = Some cols"
    by (rule addPath_not_found)
next
  assume a: "indexOf frontier successor = Some j \<and> i < length cols \<and> j \<le> length cols"
  then obtain cols' where r:
    "addPath frontier c parent i successors successor cols = Some cols'"
    "length cols' = max (length cols) (Suc j)"
    "\<forall>k<length cols'. cols' ! k = (cols @ [[]]) ! k @
        pathSegments i j (if length successors = 1 then taintedColor parent c
                          else color (frontier ! j)) k"
    using addPath_found[of frontier successor j i cols c parent successors] by blast
  have "length cols' = (if j = length cols then length cols + 1 else length cols)"
    using r(2) a by (auto simp: max_def)
  moreover have "\<forall>k<length cols'.
      map segment (cols' ! k) = map segment ((cols @ [[]]) ! k) @ specPath i j k"
    using r(3) by (simp add: segment_pathSegments)
  ultimately show "\<exists>cols'. addPath frontier c parent i successors successor cols = Some cols'
          \<and> length cols' = (if j = length cols then length cols + 1 else length cols)
          \<and> (\<forall>k<length cols'.
                map segment (cols' ! k) = map segment ((cols @ [[]]) ! k) @ specPath i j k)"
    using r(1) by blast
next
  assume run: "columns parentsOf frontier c parents root = Some row"
  from columns_result[OF run] show "length parents \<le> length row" by simp
  show "\<forall>k<length row.
             map segment (row ! k) =
               (if k < (if root then length parents - 1 else length parents) then [Top] else [])
               @ concat (map (\<lambda>i. laneKinds parentsOf frontier c (parents ! i) i k)
                           [0 ..< length parents])
               @ (if k < length parents
                  then [if commit (parents ! k) = c then Dot else Middle] else [])"
  proof (intro allI impI)
    fix k assume k: "k < length row"
    have "map segment (row ! k) = map segment (columnAt row k)"
      using k by (simp add: columnAt_def)
    also have "\<dots> =
               (if k < (if root then length parents - 1 else length parents) then [Top] else [])
               @ concat (map (\<lambda>i. laneKinds parentsOf frontier c (parents ! i) i k)
                           [0 ..< length parents])
               @ (if k < length parents
                  then [if commit (parents ! k) = c then Dot else Middle] else [])"
      using columns_result[OF run, of k]
      by (simp add: map_concat comp_def segment_laneSegments)
    finally show "map segment (row ! k) =
               (if k < (if root then length parents - 1 else length parents) then [Top] else [])
               @ concat (map (\<lambda>i. laneKinds parentsOf frontier c (parents ! i) i k)
                           [0 ..< length parents])
               @ (if k < length parents
                  then [if commit (parents ! k) = c then Dot else Middle] else [])" .
  qed
qed

theorem columns_path_segments_witness:
  "indexOf [Parent (Some 2) (QColor ''#ff0000'' 255) False,
            Parent (Some 1) (QColor ''#00ff00'' 255) False] (Some 1) = Some 1
   \<and> (0::nat) < length [[] :: Column] \<and> (1::nat) \<le> length [[] :: Column]
   \<and> addPath [Parent (Some 2) (QColor ''#ff0000'' 255) False,
               Parent (Some 1) (QColor ''#00ff00'' 255) False]
        (Some 3) (Parent (Some 3) (QColor ''#ff0000'' 255) False) 0 [Some 2, Some 1] (Some 1) [[]]
       = Some [[Segment RightOut (QColor ''#00ff00'' 255)],
               [Segment LeftIn (QColor ''#00ff00'' 255)]]
   \<and> columns exampleParents
        [Parent (Some 2) (QColor ''#ff0000'' 255) False,
         Parent (Some 1) (QColor ''#00ff00'' 255) False]
        (Some 3) [Parent (Some 3) (QColor ''#ff0000'' 255) False] True
       = Some [[Segment Bottom (QColor ''#ff0000'' 255),
                Segment RightOut (QColor ''#00ff00'' 255),
                Segment Dot (QColor ''#ff0000'' 255)],
               [Segment LeftIn (QColor ''#00ff00'' 255)]]
   \<and> laneKinds exampleParents
        [Parent (Some 2) (QColor ''#ff0000'' 255) False,
         Parent (Some 1) (QColor ''#00ff00'' 255) False]
        (Some 3) (Parent (Some 3) (QColor ''#ff0000'' 255) False) 0 1 = [LeftIn]
   \<and> indexOf [Parent (Some 2) (QColor ''#ff0000'' 255) False] (Some 1) = None
   \<and> addPath [Parent (Some 2) (QColor ''#ff0000'' 255) False]
        (Some 3) (Parent (Some 3) (QColor ''#ff0000'' 255) False) 0 [Some 2, Some 1] (Some 1) [[]]
       = Some [[]]"
proof -
  note skip = columns_path_segments
          [of "[Parent (Some 2) (QColor ''#ff0000'' 255) False]"
              "Some 1" "Some 3" "Parent (Some 3) (QColor ''#ff0000'' 255) False" 0
              "[Some 2, Some 1]" "[[]]", THEN conjunct1]
  note t = columns_path_segments
          [of "[Parent (Some 2) (QColor ''#ff0000'' 255) False,
                Parent (Some 1) (QColor ''#00ff00'' 255) False]"
              "Some 1" "Some 3" "Parent (Some 3) (QColor ''#ff0000'' 255) False" 0
              "[Some 2, Some 1]" "[[]]" 1 exampleParents
              "[Parent (Some 3) (QColor ''#ff0000'' 255) False]" True
              "[[Segment Bottom (QColor ''#ff0000'' 255),
                 Segment RightOut (QColor ''#00ff00'' 255),
                 Segment Dot (QColor ''#ff0000'' 255)],
                [Segment LeftIn (QColor ''#00ff00'' 255)]]"]
  have run: "columns exampleParents
        [Parent (Some 2) (QColor ''#ff0000'' 255) False,
         Parent (Some 1) (QColor ''#00ff00'' 255) False]
        (Some 3) [Parent (Some 3) (QColor ''#ff0000'' 255) False] True
       = Some [[Segment Bottom (QColor ''#ff0000'' 255),
                Segment RightOut (QColor ''#00ff00'' 255),
                Segment Dot (QColor ''#ff0000'' 255)],
               [Segment LeftIn (QColor ''#00ff00'' 255)]]"
    by (simp add: eval_simps)
  from t[THEN conjunct2, THEN conjunct2, rule_format, OF run, THEN conjunct2, rule_format, of 1]
  have "laneKinds exampleParents
        [Parent (Some 2) (QColor ''#ff0000'' 255) False,
         Parent (Some 1) (QColor ''#00ff00'' 255) False]
        (Some 3) (Parent (Some 3) (QColor ''#ff0000'' 255) False) 0 1 = [LeftIn]"
    by simp
  with run t[THEN conjunct2, THEN conjunct1] skip show ?thesis
    by (simp add: addPath_def addSegment_def Let_def)
qed

text \<open>
  C7. The colour of one path. With exactly one successor in the lane's list, every
  segment the path adds has the source lane's tainted-aware colour
  \<open>taintedColor parent c\<close>; with more than one, every segment has the colour of the
  target lane in the updated frontier. The path adds one segment to the source column.
\<close>

theorem path_segment_colors:
  assumes "indexOf frontier successor = Some j" and "i < length cols" and "j \<le> length cols"
  shows "\<exists>cols'. addPath frontier c parent i successors successor cols = Some cols'
     \<and> (length successors = 1 \<longrightarrow>
          (\<forall>k<length cols'. \<exists>gained. cols' ! k = (cols @ [[]]) ! k @ gained
              \<and> set (map segColor gained) \<subseteq> {taintedColor parent c}))
     \<and> (1 < length successors \<longrightarrow>
          (\<forall>k<length cols'. \<exists>gained. cols' ! k = (cols @ [[]]) ! k @ gained
              \<and> set (map segColor gained) \<subseteq> {color (frontier ! j)}))
     \<and> length (cols' ! i) = length (cols ! i) + 1"
proof -
  define col where "col = (if length successors = 1 then taintedColor parent c
                            else color (frontier ! j))"
  obtain cols' where r:
    "addPath frontier c parent i successors successor cols = Some cols'"
    "length cols' = max (length cols) (Suc j)"
    "\<forall>k<length cols'. cols' ! k = (cols @ [[]]) ! k @ pathSegments i j col k"
    using addPath_found[OF assms, of c parent successors] unfolding col_def by blast
  have gained: "\<forall>k<length cols'. \<exists>gained. cols' ! k = (cols @ [[]]) ! k @ gained
              \<and> set (map segColor gained) \<subseteq> {col}"
    using r(3) segColor_pathSegments by blast
  have "i < length cols'" using r(2) assms(2) by simp
  then have "length (cols' ! i) = length (cols ! i) + 1"
    using r(3) assms(2) by (simp add: nth_append length_pathSegments_source)
  with r(1) gained show ?thesis
    by (auto simp: col_def)
qed

theorem path_segment_colors_witness:
  "indexOf [Parent (Some 1) (QColor ''#ff0000'' 255) False,
            Parent (Some 0) (QColor ''#00ff00'' 255) False] (Some 0) = Some 1
   \<and> addPath [Parent (Some 1) (QColor ''#ff0000'' 255) False,
               Parent (Some 0) (QColor ''#00ff00'' 255) False]
        (Some 5) (Parent (Some 0) (QColor ''#0000ff'' 255) True) 2 [Some 0] (Some 0) [[], [], []]
       = Some [[], [Segment RightIn kTaintedColor], [Segment LeftOut kTaintedColor]]
   \<and> addPath [Parent (Some 1) (QColor ''#ff0000'' 255) False,
               Parent (Some 0) (QColor ''#00ff00'' 255) False]
        (Some 2) (Parent (Some 2) (QColor ''#ff0000'' 255) False) 0 [Some 1, Some 0] (Some 0) [[]]
       = Some [[Segment RightOut (QColor ''#00ff00'' 255)],
               [Segment LeftIn (QColor ''#00ff00'' 255)]]"
  using path_segment_colors
          [of "[Parent (Some 1) (QColor ''#ff0000'' 255) False,
                Parent (Some 0) (QColor ''#00ff00'' 255) False]"
              "Some 0" 1 2 "[[], [], []]" "Some 5" "Parent (Some 0) (QColor ''#0000ff'' 255) True"
              "[Some 0]"]
        path_segment_colors
          [of "[Parent (Some 1) (QColor ''#ff0000'' 255) False,
                Parent (Some 0) (QColor ''#00ff00'' 255) False]"
              "Some 0" 1 0 "[[]]" "Some 2" "Parent (Some 2) (QColor ''#ff0000'' 255) False"
              "[Some 1, Some 0]"]
  by (simp add: addPath_def addSegment_def taintedColor_def Let_def)

section \<open>The frontier update\<close>

lemma appendReplacements_Some:
  assumes "colors \<noteq> []"
  shows "\<exists>news. appendReplacements colors rs frontier = Some (frontier @ news)
           \<and> map commit news = rs
           \<and> (\<forall>k<length news. \<not> tainted (news ! k)
                 \<and> nextColor colors (frontier @ take k news) = Some (color (news ! k)))"
proof (induction rs arbitrary: frontier)
  case Nil
  show ?case by simp
next
  case (Cons r rs)
  obtain col where col: "nextColor colors frontier = Some col"
    using nextColor_Some[OF assms] by blast
  obtain news where news:
    "appendReplacements colors rs (frontier @ [Parent r col False])
       = Some ((frontier @ [Parent r col False]) @ news)"
    "map commit news = rs"
    "\<forall>k<length news. \<not> tainted (news ! k)
       \<and> nextColor colors ((frontier @ [Parent r col False]) @ take k news) = Some (color (news ! k))"
    using Cons.IH[of "frontier @ [Parent r col False]"] by blast
  have "\<forall>k<length (Parent r col False # news). \<not> tainted ((Parent r col False # news) ! k)
       \<and> nextColor colors (frontier @ take k (Parent r col False # news))
           = Some (color ((Parent r col False # news) ! k))"
  proof (intro allI impI)
    fix k assume "k < length (Parent r col False # news)"
    then show "\<not> tainted ((Parent r col False # news) ! k)
       \<and> nextColor colors (frontier @ take k (Parent r col False # news))
           = Some (color ((Parent r col False # news) ! k))"
      using news(3) col by (cases k) auto
  qed
  then show ?case
    using col news(1,2) by (intro exI[of _ "Parent r col False # news"]) simp
qed

lemma appendReplacements_result:
  assumes "appendReplacements colors rs frontier = Some frontier'"
  shows "\<exists>news. frontier' = frontier @ news
           \<and> map commit news = rs
           \<and> (\<forall>k<length news. \<not> tainted (news ! k)
                 \<and> nextColor colors (frontier @ take k news) = Some (color (news ! k)))"
  using assms
proof (induction rs arbitrary: frontier)
  case Nil
  then show ?case by simp
next
  case (Cons r rs)
  from Cons.prems obtain col where col: "nextColor colors frontier = Some col"
    and rest: "appendReplacements colors rs (frontier @ [Parent r col False]) = Some frontier'"
    by (auto simp: bind_eq_Some_conv)
  from Cons.IH[OF rest] obtain news where news:
    "frontier' = (frontier @ [Parent r col False]) @ news"
    "map commit news = rs"
    "\<forall>k<length news. \<not> tainted (news ! k)
       \<and> nextColor colors ((frontier @ [Parent r col False]) @ take k news) = Some (color (news ! k))"
    by blast
  have "\<forall>k<length (Parent r col False # news). \<not> tainted ((Parent r col False # news) ! k)
       \<and> nextColor colors (frontier @ take k (Parent r col False # news))
           = Some (color ((Parent r col False # news) ! k))"
  proof (intro allI impI)
    fix k assume "k < length (Parent r col False # news)"
    then show "\<not> tainted ((Parent r col False # news) ! k)
       \<and> nextColor colors (frontier @ take k (Parent r col False # news))
           = Some (color ((Parent r col False # news) ! k))"
      using news(3) col by (cases k) auto
  qed
  then show ?case
    using news(1,2) by (intro exI[of _ "Parent r col False # news"]) simp
qed

lemma take_drop_insert:
  "index < length xs \<Longrightarrow>
     take index (take index xs @ drop (index + 1) xs) @ [x]
       @ drop index (take index xs @ drop (index + 1) xs) = xs[index := x]"
  by (simp add: upd_conv_take_nth_drop min_def)

lemma replaceCommit_Cons:
  assumes "indexOf frontier c = Some index"
  shows "replaceCommit colors (r # rs) c frontier =
           appendReplacements colors rs
             (frontier[index := Parent r (color (frontier ! index)) False])"
proof -
  have idx: "index < length frontier" using indexOf_Some_nth[OF assms] by simp
  show ?thesis
    by (simp only: replaceCommit_def Let_def assms option.case list.case take_drop_insert[OF idx])
qed

lemma replaceCommit_Nil:
  "indexOf frontier c = Some index \<Longrightarrow>
     replaceCommit colors [] c frontier = Some (take index frontier @ drop (Suc index) frontier)"
  by (simp add: replaceCommit_def)

lemma replaceCommit_result:
  assumes "replaceCommit colors reps c frontier = Some frontier'"
    and "indexOf frontier c = Some index"
  shows "\<exists>news. frontier' =
             (case reps of
                [] \<Rightarrow> take index frontier @ drop (Suc index) frontier
              | r # rs \<Rightarrow> frontier[index := Parent r (color (frontier ! index)) False] @ news)
           \<and> map commit news = tl reps
           \<and> (\<forall>k<length news. \<not> tainted (news ! k)
                 \<and> nextColor colors
                      (frontier[index := Parent (hd reps) (color (frontier ! index)) False]
                         @ take k news) = Some (color (news ! k)))"
proof (cases reps)
  case Nil
  with assms show ?thesis
    by (intro exI[of _ "[]"]) (simp add: replaceCommit_def)
next
  case (Cons r rs)
  from assms Cons have
    "appendReplacements colors rs (frontier[index := Parent r (color (frontier ! index)) False])
       = Some frontier'"
    by (simp add: replaceCommit_Cons)
  from appendReplacements_result[OF this] Cons show ?thesis by auto
qed

lemma replaceCommit_Some:
  assumes "colors \<noteq> []"
  shows "\<exists>frontier'. replaceCommit colors reps c frontier = Some frontier'"
proof (cases "indexOf frontier c")
  case None
  then show ?thesis by (simp add: replaceCommit_def)
next
  case (Some index)
  show ?thesis
  proof (cases reps)
    case Nil
    with Some show ?thesis by (simp add: replaceCommit_def)
  next
    case (Cons r rs)
    with Some appendReplacements_Some[OF assms] show ?thesis
      by (simp add: replaceCommit_Cons) blast
  qed
qed

lemma replacementsOf_eq:
  "replacementsOf parentsOf rows0 rows frontier c =
     filter (\<lambda>p. p \<notin> commit ` set frontier \<and> p \<notin> rowCommit ` set rows0
                \<and> p \<notin> rowCommit ` set rows) (parentsOf c)"
  by (simp add: replacementsOf_def contains_def indexOf_None_iff)

lemma addRoot_present:
  "indexOf frontier c = Some index \<Longrightarrow> addRoot colors c frontier = Some (False, frontier)"
  by (simp add: addRoot_def)

lemma addRoot_result:
  assumes "addRoot colors c frontier = Some (root, frontier1)"
  shows "(root \<longleftrightarrow> indexOf frontier c = None)
       \<and> (if root then \<exists>col. nextColor colors frontier = Some col
                        \<and> frontier1 = frontier @ [Parent c col False]
           else frontier1 = frontier)
       \<and> indexOf frontier1 c \<noteq> None"
  using assms
  by (cases "indexOf frontier c")
     (auto simp: addRoot_def bind_eq_Some_conv indexOf_append)

lemma addRoot_Some:
  assumes "colors \<noteq> []"
  shows "\<exists>root frontier1. addRoot colors c frontier = Some (root, frontier1)"
  using nextColor_Some[OF assms, of frontier]
  by (cases "indexOf frontier c") (auto simp: addRoot_def)

lemma layoutCommit_Some_iff:
  "layoutCommit parentsOf colors graphVisible pathspec rows0 rows c frontier = Some (row, frontier')
   \<longleftrightarrow> (\<exists>root frontier1 cols.
         addRoot colors c frontier = Some (root, frontier1)
       \<and> replaceCommit colors (replacementsOf parentsOf rows0 rows frontier1 c) c frontier1
           = Some frontier'
       \<and> (if graphVisible \<and> pathspec = []
            then columns parentsOf frontier' c frontier1 root else Some []) = Some cols
       \<and> row = Row c cols)"
  by (cases "graphVisible \<and> pathspec = []")
     (auto simp: layoutCommit_def bind_eq_Some_conv Let_def)

text \<open>
  What one turn does to the frontier when a lane holds the commit. The replacements are
  the parents that, before the update, have no lane and no row (in \<open>mRows\<close> or in
  the batch so far); a parent that the list names twice is a replacement twice. The
  first replacement takes the lane's position and keeps the lane's colour; every further
  one is appended at the end, in order, with the colour that \<open>nextColor\<close> gives for
  the frontier as it stands then; with no replacement the lane is removed.
\<close>

lemma layoutCommit_frontier:
  assumes "layoutCommit parentsOf colors graphVisible pathspec rows0 rows c frontier
             = Some (row, frontier')"
    and "indexOf frontier c = Some index"
  shows "\<exists>news.
      replacementsOf parentsOf rows0 rows frontier c =
         filter (\<lambda>p. p \<notin> commit ` set frontier \<and> p \<notin> rowCommit ` set rows0
                    \<and> p \<notin> rowCommit ` set rows) (parentsOf c)
    \<and> frontier' =
         (case replacementsOf parentsOf rows0 rows frontier c of
            [] \<Rightarrow> take index frontier @ drop (Suc index) frontier
          | r # rs \<Rightarrow> frontier[index := Parent r (color (frontier ! index)) False] @ news)
    \<and> map commit news = tl (replacementsOf parentsOf rows0 rows frontier c)
    \<and> (\<forall>k<length news. \<not> tainted (news ! k)
          \<and> nextColor colors
               (frontier[index := Parent (hd (replacementsOf parentsOf rows0 rows frontier c))
                                     (color (frontier ! index)) False] @ take k news)
             = Some (color (news ! k)))"
proof -
  from assms have
    "replaceCommit colors (replacementsOf parentsOf rows0 rows frontier c) c frontier
       = Some frontier'"
    by (auto simp: layoutCommit_Some_iff addRoot_present)
  from replaceCommit_result[OF this assms(2)] show ?thesis
    by (auto simp: replacementsOf_eq)
qed

lemma layoutCommit_frontier_example:
  "layoutCommit exampleParents examplePalette True [] [] [] (Some 3)
      [Parent (Some 3) (QColor ''#ff0000'' 255) False]
     = Some (Row (Some 3)
               [[Segment Top (QColor ''#ff0000'' 255), Segment Bottom (QColor ''#ff0000'' 255),
                 Segment RightOut (QColor ''#00ff00'' 255), Segment Dot (QColor ''#ff0000'' 255)],
                [Segment LeftIn (QColor ''#00ff00'' 255)]],
             [Parent (Some 2) (QColor ''#ff0000'' 255) False,
              Parent (Some 1) (QColor ''#00ff00'' 255) False])
   \<and> indexOf [Parent (Some 3) (QColor ''#ff0000'' 255) False] (Some 3) = Some 0
   \<and> replacementsOf exampleParents [] [] [Parent (Some 3) (QColor ''#ff0000'' 255) False] (Some 3)
       = [Some 2, Some 1]"
proof -
  have run: "layoutCommit exampleParents examplePalette True [] [] [] (Some 3)
      [Parent (Some 3) (QColor ''#ff0000'' 255) False]
     = Some (Row (Some 3)
               [[Segment Top (QColor ''#ff0000'' 255), Segment Bottom (QColor ''#ff0000'' 255),
                 Segment RightOut (QColor ''#00ff00'' 255), Segment Dot (QColor ''#ff0000'' 255)],
                [Segment LeftIn (QColor ''#00ff00'' 255)]],
             [Parent (Some 2) (QColor ''#ff0000'' 255) False,
              Parent (Some 1) (QColor ''#00ff00'' 255) False])"
    by (simp add: eval_simps)
  have idx: "indexOf [Parent (Some 3) (QColor ''#ff0000'' 255) False] (Some 3) = Some 0"
    by simp
  from layoutCommit_frontier[OF run idx] run idx show ?thesis
    by (simp add: exampleParents_def)
qed


section \<open>columns stays within the vector\<close>

lemma addPath_in_range:
  assumes "i < length cols"
    and "\<And>j. indexOf frontier' s = Some j \<Longrightarrow> j \<le> length cols"
  shows "\<exists>cols'. addPath frontier' c parent i succs s cols = Some cols'
           \<and> length cols \<le> length cols'
           \<and> (\<forall>j. indexOf frontier' s = Some j \<longrightarrow> length cols' = max (length cols) (Suc j))
           \<and> (indexOf frontier' s = None \<longrightarrow> cols' = cols)"
proof (cases "indexOf frontier' s")
  case None
  then show ?thesis by (simp add: addPath_not_found)
next
  case (Some j)
  with assms(2) have "j \<le> length cols" by simp
  from addPath_found[OF Some assms(1) this, of c parent succs] Some show ?thesis
    by auto
qed

text \<open>The successors of the lane that holds the commit, when no lane was appended.\<close>

lemma forEach_addPath_short:
  assumes "length frontier' \<le> length cols" and "i < length cols"
  shows "\<exists>cols'. forEach (addPath frontier' c parent i succs) rest cols = Some cols'
           \<and> length cols' = length cols"
proof -
  have "\<exists>cols'. forEach (addPath frontier' c parent i succs) rest cols = Some cols'
           \<and> (length cols' = length cols)"
  proof (rule forEach_invariant[where I = "\<lambda>cs::Column list. length cs = length cols"])
    show "length cols = length cols" by simp
  next
    fix s and cs :: "Column list" assume cs: "length cs = length cols"
    have rng: "\<And>j. indexOf frontier' s = Some j \<Longrightarrow> j < length cs"
      using indexOf_Some_nth assms(1) cs by fastforce
    then have "\<And>j. indexOf frontier' s = Some j \<Longrightarrow> j \<le> length cs"
      by (simp add: less_imp_le)
    from addPath_in_range[of i cs frontier' s c parent succs, OF _ this] assms(2) cs
    obtain cols' where r: "addPath frontier' c parent i succs s cs = Some cols'"
      "\<forall>j. indexOf frontier' s = Some j \<longrightarrow> length cols' = max (length cs) (Suc j)"
      "indexOf frontier' s = None \<longrightarrow> cols' = cs"
      by auto
    have "length cols' = length cs"
    proof (cases "indexOf frontier' s")
      case None
      with r(3) show ?thesis by simp
    next
      case (Some j)
      with r(2) rng[OF Some] show ?thesis by (simp add: max_def)
    qed
    with r(1) cs show "\<exists>s'. addPath frontier' c parent i succs s cs = Some s' \<and> length s' = length cols"
      by simp
  qed
  then show ?thesis .
qed

text \<open>
  The successors of the lane that holds the commit, when lanes were appended: the
  appended lanes \<open>news\<close> hold the parents \<open>filter R ps\<close>, in the order of the parent
  list, so each is reached when the vector has grown just up to it.
\<close>

lemma forEach_addPath_appended:
  assumes "map commit news = filter R ps"
    and "distinct (filter R ps)"
    and "\<And>p. p \<in> set ps \<Longrightarrow> R p \<Longrightarrow> p \<notin> commit ` set G"
    and "ps = pre @ rest"
    and "i < length G"
    and "length G + length (filter R pre) \<le> length cols"
  shows "\<exists>cols'. forEach (addPath (G @ news) c parent i succs) rest cols = Some cols'
           \<and> length G + length (filter R ps) \<le> length cols'"
  using assms(4,6)
proof (induction rest arbitrary: pre cols)
  case Nil
  then show ?case by simp
next
  case (Cons p rest)
  have ps: "ps = (pre @ [p]) @ rest" using Cons.prems(1) by simp
  have p_in: "p \<in> set ps" using Cons.prems(1) by simp
  have i: "i < length cols" using assms(5) Cons.prems(2) by simp
  have rs_split: "filter R ps = filter R pre @ filter R [p] @ filter R rest"
    using Cons.prems(1) by simp
  have idx: "j \<le> length cols \<and> (R p \<longrightarrow> j = length G + length (filter R pre))"
    if j: "indexOf (G @ news) p = Some j" for j
  proof (cases "indexOf G p")
    case (Some j')
    with j have "j = j'" by (simp add: indexOf_append)
    moreover from Some have "j' < length G" "p \<in> commit ` set G"
      using indexOf_Some_nth[OF Some] indexOf_None_iff[of G p] by auto
    ultimately show ?thesis
      using Cons.prems(2) assms(3)[OF p_in] by auto
  next
    case None
    with j obtain k where k: "indexOf news p = Some k" "j = length G + k"
      by (auto simp: indexOf_append)
    from indexOf_Some_nth[OF k(1)] have kn: "k < length news" "commit (news ! k) = p" by auto
    then have at_k: "filter R ps ! k = p" "k < length (filter R ps)"
      using assms(1) by (metis nth_map length_map)+
    then have "p \<in> set (filter R ps)"
      by (metis nth_mem)
    then have Rp: "R p" by simp
    then have at_n: "filter R ps ! length (filter R pre) = p"
      "length (filter R pre) < length (filter R ps)"
      by (simp_all add: rs_split nth_append)
    have "k = length (filter R pre)"
      using assms(2) at_k at_n by (metis nth_eq_iff_index_eq)
    with k(2) Cons.prems(2) show ?thesis by simp
  qed
  then have "\<And>j. indexOf (G @ news) p = Some j \<Longrightarrow> j \<le> length cols" by simp
  from addPath_in_range[of i cols "G @ news" p c parent succs, OF i this]
  obtain cols1 where r: "addPath (G @ news) c parent i succs p cols = Some cols1"
    "length cols \<le> length cols1"
    "\<forall>j. indexOf (G @ news) p = Some j \<longrightarrow> length cols1 = max (length cols) (Suc j)"
    by auto
  have grow: "length G + length (filter R (pre @ [p])) \<le> length cols1"
  proof (cases "R p")
    case False
    with r(2) Cons.prems(2) show ?thesis by simp
  next
    case True
    then have "p \<in> set (filter R ps)" using p_in by simp
    then have "p \<in> commit ` set news" using assms(1) by (metis set_map)
    then have "indexOf (G @ news) p \<noteq> None"
      by (auto simp: indexOf_None_iff)
    then obtain j where j: "indexOf (G @ news) p = Some j" by auto
    with idx[OF j] True have "j = length G + length (filter R pre)" by simp
    with r(3) j True show ?thesis by simp
  qed
  from Cons.IH[OF ps grow] r(1) show ?case by simp
qed

lemma filter_tail_distinct:
  assumes "distinct xs" and "filter Q xs = r # rs"
  shows "filter (\<lambda>p. Q p \<and> p \<noteq> r) xs = rs"
proof -
  have "distinct (r # rs)" using assms by (metis distinct_filter)
  then have "filter (\<lambda>p. p \<noteq> r) (r # rs) = rs"
    by (auto simp: filter_id_conv)
  moreover have "filter (\<lambda>p. Q p \<and> p \<noteq> r) xs = filter (\<lambda>p. p \<noteq> r) (filter Q xs)"
    by (simp add: conj_commute)
  ultimately show ?thesis using assms(2) by simp
qed

text \<open>A lane that does not hold the commit is carried to its own position or one to the left.\<close>

lemma carried_lane:
  assumes "i < length frontier" and "i \<noteq> index" and "index < length frontier"
    and "frontier' = (case reps of
            [] \<Rightarrow> take index frontier @ drop (Suc index) frontier
          | r # rs \<Rightarrow> frontier[index := lane r] @ news)"
    and "indexOf frontier' (commit (frontier ! i)) = Some j"
  shows "j \<le> i"
proof -
  have "\<exists>pos\<le>i. pos < length frontier' \<and> commit (frontier' ! pos) = commit (frontier ! i)"
  proof (cases reps)
    case Nil
    show ?thesis
    proof (cases "i < index")
      case True
      with assms(1,3,4) Nil show ?thesis
        by (intro exI[of _ i]) (simp add: nth_append)
    next
      case False
      with assms(2) have gt: "index < i" by simp
      with assms(1,3,4) Nil show ?thesis
        by (intro exI[of _ "i - 1"]) (auto simp: nth_append min_def)
    qed
  next
    case (Cons r rs)
    with assms(1,2,4) show ?thesis
      by (intro exI[of _ i]) (simp add: nth_append)
  qed
  then obtain pos where pos: "pos \<le> i" "pos < length frontier'"
    "commit (frontier' ! pos) = commit (frontier ! i)" by blast
  from indexOf_le[OF pos(2,3)] assms(5) pos(1) show ?thesis by auto
qed

lemma columns_in_range:
  assumes dist: "distinct (map commit frontier)"
    and idx: "indexOf frontier c = Some index"
    and dps: "distinct (parentsOf c)"
    and reps: "reps = filter Q (parentsOf c)"
    and Q: "\<And>p. Q p \<Longrightarrow> p \<notin> commit ` set frontier"
    and shape: "frontier' = (case reps of
            [] \<Rightarrow> take index frontier @ drop (Suc index) frontier
          | r # rs \<Rightarrow> frontier[index := Parent r col False] @ news)"
    and news: "map commit news = tl reps"
  shows "\<exists>cols. columns parentsOf frontier' c frontier root = Some cols"
proof -
  define count where "count = length frontier"
  have index: "index < count" "commit (frontier ! index) = c"
    using indexOf_Some_nth[OF idx] by (simp_all add: count_def)
  \<comment> \<open>incoming paths\<close>
  have "\<exists>cols1. forEach (\<lambda>i columns.
            addSegment columns i (Segment Top (taintedColor (frontier ! i) None)))
          [0 ..< (if root then count - 1 else count)] (replicate count []) = Some cols1
        \<and> length cols1 = count"
  proof (rule forEach_invariant[where I = "\<lambda>cs::Column list. length cs = count"])
    show "length (replicate count ([]::Segment list)) = count" by simp
  next
    fix i and cs :: "Column list"
    assume "i \<in> set [0 ..< (if root then count - 1 else count)]" "length cs = count"
    then have "i < length cs" by (auto split: if_splits)
    then show "\<exists>s'. addSegment cs i (Segment Top (taintedColor (frontier ! i) None)) = Some s'
                 \<and> length s' = count"
      using \<open>length cs = count\<close> by (simp add: addSegment_Some)
  qed
  then obtain cols1 where cols1: "forEach (\<lambda>i columns.
            addSegment columns i (Segment Top (taintedColor (frontier ! i) None)))
          [0 ..< (if root then count - 1 else count)] (replicate count []) = Some cols1"
      "length cols1 = count" by blast
  \<comment> \<open>outgoing paths\<close>
  have "\<exists>cols2. forEach (addOutgoing parentsOf frontier' c frontier) [0 ..< count] cols1
          = Some cols2 \<and> count \<le> length cols2"
  proof (rule forEach_invariant[where I = "\<lambda>cs::Column list. count \<le> length cs"])
    show "count \<le> length cols1" using cols1(2) by simp
  next
    fix i and cs :: "Column list"
    assume "i \<in> set [0 ..< count]" and cs: "count \<le> length cs"
    then have i: "i < count" by simp
    show "\<exists>s'. addOutgoing parentsOf frontier' c frontier i cs = Some s' \<and> count \<le> length s'"
    proof (cases "commit (frontier ! i) = c")
      case False
      then have ne: "i \<noteq> index" using index(2) by auto
      have "\<And>j. indexOf frontier' (commit (frontier ! i)) = Some j \<Longrightarrow> j \<le> length cs"
        using carried_lane[where lane = "\<lambda>r. Parent r col False", OF _ ne _ shape] i index(1) cs
        unfolding count_def by fastforce
      from addPath_in_range[of i cs frontier' "commit (frontier ! i)" c "frontier ! i"
              "[commit (frontier ! i)]", OF _ this]
      obtain cols' where "addPath frontier' c (frontier ! i) i [commit (frontier ! i)]
              (commit (frontier ! i)) cs = Some cols'" "length cs \<le> length cols'"
        using i cs by auto
      with False cs show ?thesis
        by (simp add: addOutgoing_def successorsOf_def Let_def)
    next
      case True
      have "indexOf frontier (commit (frontier ! i)) = Some i"
        using indexOf_distinct[OF dist] i by (simp add: count_def)
      with True idx have ii: "i = index" by simp
      have succs: "successorsOf parentsOf c (frontier ! i) = parentsOf c"
        using True by (simp add: successorsOf_def)
      have "\<exists>cols'. forEach (addPath frontier' c (frontier ! i) i (parentsOf c)) (parentsOf c) cs
               = Some cols' \<and> count \<le> length cols'"
      proof (cases reps)
        case Nil
        with shape index(1) have "length frontier' \<le> length cs"
          using cs by (simp add: count_def)
        from forEach_addPath_short[OF this, of i c "frontier ! i" "parentsOf c" "parentsOf c"]
        show ?thesis using i cs by auto
      next
        case (Cons r rs)
        define G where "G = frontier[index := Parent r col False]"
        define R where "R = (\<lambda>p. Q p \<and> p \<noteq> r)"
        have F': "frontier' = G @ news" using shape Cons by (simp add: G_def)
        have lenG: "length G = count" by (simp add: G_def count_def)
        have rs: "filter R (parentsOf c) = rs"
          unfolding R_def using filter_tail_distinct[OF dps] reps Cons by simp
        have a1: "map commit news = filter R (parentsOf c)" using news Cons rs by simp
        have a2: "distinct (filter R (parentsOf c))" using dps by simp
        have a3: "\<And>p. p \<in> set (parentsOf c) \<Longrightarrow> R p \<Longrightarrow> p \<notin> commit ` set G"
        proof -
          fix p assume "p \<in> set (parentsOf c)" "R p"
          then have "p \<notin> commit ` set frontier" "p \<noteq> r" using Q by (auto simp: R_def)
          moreover have "set G \<subseteq> insert (Parent r col False) (set frontier)"
            unfolding G_def by (rule set_update_subset_insert)
          ultimately show "p \<notin> commit ` set G" by auto
        qed
        from forEach_addPath_appended[of news R "parentsOf c" G "[]" "parentsOf c" i cs c
                "frontier ! i" "parentsOf c", OF a1 a2 a3]
        show ?thesis using i cs lenG F' by auto
      qed
      then show ?thesis by (simp add: addOutgoing_def succs Let_def)
    qed
  qed
  then obtain cols2 where cols2:
    "forEach (addOutgoing parentsOf frontier' c frontier) [0 ..< count] cols1 = Some cols2"
    "count \<le> length cols2" by blast
  \<comment> \<open>middle section\<close>
  have "\<exists>cols3. forEach (\<lambda>i columns. addSegment columns i
              (Segment (if commit (frontier ! i) = c then Dot else Middle)
                 (taintedColor (frontier ! i) None))) [0 ..< count] cols2 = Some cols3
        \<and> count \<le> length cols3"
  proof (rule forEach_invariant[where I = "\<lambda>cs::Column list. count \<le> length cs"])
    show "count \<le> length cols2" by (rule cols2(2))
  next
    fix i and cs :: "Column list"
    assume "i \<in> set [0 ..< count]" "count \<le> length cs"
    then show "\<exists>s'. addSegment cs i (Segment (if commit (frontier ! i) = c then Dot else Middle)
                 (taintedColor (frontier ! i) None)) = Some s' \<and> count \<le> length s'"
      by (simp add: addSegment_Some)
  qed
  then obtain cols3 where "forEach (\<lambda>i columns. addSegment columns i
              (Segment (if commit (frontier ! i) = c then Dot else Middle)
                 (taintedColor (frontier ! i) None))) [0 ..< count] cols2 = Some cols3"
    by blast
  with cols1(1) cols2(1) show ?thesis
    by (cases root) (simp_all add: columns_def Let_def count_def)
qed

section \<open>The frontier stays duplicate-free\<close>

lemma distinct_remove_nth:
  assumes "distinct xs"
  shows "distinct (take index xs @ drop (Suc index) xs)"
proof (cases "index < length xs")
  case True
  then have "xs = take index xs @ xs ! index # drop (Suc index) xs"
    by (rule id_take_nth_drop)
  then have "distinct (take index xs @ xs ! index # drop (Suc index) xs)"
    using assms by simp
  then show ?thesis by auto
next
  case False
  with assms show ?thesis by simp
qed

lemma distinct_frontier_shape:
  assumes dist: "distinct (map commit frontier)"
    and index: "index < length frontier"
    and dreps: "distinct reps"
    and fresh: "\<And>p. p \<in> set reps \<Longrightarrow> p \<notin> commit ` set frontier"
    and shape: "frontier' = (case reps of
            [] \<Rightarrow> take index frontier @ drop (Suc index) frontier
          | r # rs \<Rightarrow> frontier[index := Parent r col False] @ news)"
    and news: "map commit news = tl reps"
  shows "distinct (map commit frontier')"
proof (cases reps)
  case Nil
  with shape have "map commit frontier'
      = take index (map commit frontier) @ drop (Suc index) (map commit frontier)"
    by (simp add: take_map drop_map)
  with distinct_remove_nth[OF dist] show ?thesis by simp
next
  case (Cons r rs)
  have r: "r \<notin> set (map commit frontier)" using fresh[of r] Cons by simp
  have upd: "map commit (frontier[index := Parent r col False]) = (map commit frontier)[index := r]"
    by (simp add: map_update)
  have d1: "distinct ((map commit frontier)[index := r])"
    using dist r by (intro distinct_list_update) auto
  have sub: "set ((map commit frontier)[index := r]) \<subseteq> insert r (set (map commit frontier))"
    by (rule set_update_subset_insert)
  have "set rs \<inter> insert r (set (map commit frontier)) = {}"
    using dreps fresh Cons by auto
  with sub have d2: "set ((map commit frontier)[index := r]) \<inter> set rs = {}" by blast
  have "map commit frontier' = (map commit frontier)[index := r] @ rs"
    using shape Cons news upd by simp
  with d1 d2 dreps Cons show ?thesis by simp
qed

lemma addRoot_distinct:
  assumes "addRoot colors c frontier = Some (root, frontier1)"
    and "distinct (map commit frontier)"
  shows "distinct (map commit frontier1)"
proof (cases root)
  case True
  with addRoot_result[OF assms(1)] obtain col where
    "indexOf frontier c = None" "frontier1 = frontier @ [Parent c col False]" by auto
  with assms(2) show ?thesis by (simp add: indexOf_None_iff)
next
  case False
  with addRoot_result[OF assms(1)] assms(2) show ?thesis by simp
qed

lemma layoutCommit_distinct:
  assumes run: "layoutCommit parentsOf colors graphVisible pathspec rows0 rows c frontier
             = Some (row, frontier')"
    and dist: "distinct (map commit frontier)"
    and dps: "distinct (parentsOf c)"
  shows "distinct (map commit frontier')"
proof -
  from run obtain root frontier1 where
    root: "addRoot colors c frontier = Some (root, frontier1)"
    and rep: "replaceCommit colors (replacementsOf parentsOf rows0 rows frontier1 c) c frontier1
           = Some frontier'"
    by (auto simp: layoutCommit_Some_iff)
  have d1: "distinct (map commit frontier1)" by (rule addRoot_distinct[OF root dist])
  from addRoot_result[OF root] obtain index where idx: "indexOf frontier1 c = Some index"
    by auto
  from replaceCommit_result[OF rep idx] obtain news where
    shape: "frontier' = (case replacementsOf parentsOf rows0 rows frontier1 c of
            [] \<Rightarrow> take index frontier1 @ drop (Suc index) frontier1
          | r # rs \<Rightarrow> frontier1[index := Parent r (color (frontier1 ! index)) False] @ news)"
    and news: "map commit news = tl (replacementsOf parentsOf rows0 rows frontier1 c)"
    by blast
  show ?thesis
  proof (rule distinct_frontier_shape[OF d1 _ _ _ shape news])
    show "index < length frontier1" using indexOf_Some_nth[OF idx] by simp
    show "distinct (replacementsOf parentsOf rows0 rows frontier1 c)"
      using dps by (simp add: replacementsOf_eq)
    show "\<And>p. p \<in> set (replacementsOf parentsOf rows0 rows frontier1 c)
            \<Longrightarrow> p \<notin> commit ` set frontier1"
      by (simp add: replacementsOf_eq)
  qed
qed

lemma layoutCommit_total:
  assumes ne: "colors \<noteq> []"
    and dist: "distinct (map commit frontier)"
    and dps: "distinct (parentsOf c)"
  shows "\<exists>row frontier'.
           layoutCommit parentsOf colors graphVisible pathspec rows0 rows c frontier
             = Some (row, frontier')"
proof -
  obtain root frontier1 where root: "addRoot colors c frontier = Some (root, frontier1)"
    using addRoot_Some[OF ne] by blast
  have d1: "distinct (map commit frontier1)" by (rule addRoot_distinct[OF root dist])
  from addRoot_result[OF root] obtain index where idx: "indexOf frontier1 c = Some index"
    by auto
  define reps where "reps = replacementsOf parentsOf rows0 rows frontier1 c"
  obtain frontier' where rep: "replaceCommit colors reps c frontier1 = Some frontier'"
    using replaceCommit_Some[OF ne] by blast
  from replaceCommit_result[OF rep idx] obtain news where
    shape: "frontier' = (case reps of
            [] \<Rightarrow> take index frontier1 @ drop (Suc index) frontier1
          | r # rs \<Rightarrow> frontier1[index := Parent r (color (frontier1 ! index)) False] @ news)"
    and news: "map commit news = tl reps"
    by blast
  have "\<exists>cols. columns parentsOf frontier' c frontier1 root = Some cols"
  proof (rule columns_in_range[where col = "color (frontier1 ! index)" and news = news
        and reps = reps and index = index and parentsOf = parentsOf and c = c
        and frontier = frontier1 and frontier' = frontier'
        and Q = "\<lambda>p. p \<notin> commit ` set frontier1 \<and> p \<notin> rowCommit ` set rows0
                \<and> p \<notin> rowCommit ` set rows", OF d1 idx dps _ _ shape news])
    show "reps = filter (\<lambda>p. p \<notin> commit ` set frontier1 \<and> p \<notin> rowCommit ` set rows0
                \<and> p \<notin> rowCommit ` set rows) (parentsOf c)"
      by (simp add: reps_def replacementsOf_eq)
  qed blast
  then obtain cols where
    "(if graphVisible \<and> pathspec = [] then columns parentsOf frontier' c frontier1 root
      else Some []) = Some cols"
    by (cases "graphVisible \<and> pathspec = []") auto
  with root rep show ?thesis
    unfolding reps_def by (simp add: layoutCommit_Some_iff)
qed

lemma layoutCommit_rowCommit:
  "layoutCommit parentsOf colors graphVisible pathspec rows0 rows c frontier = Some (row, frontier')
     \<Longrightarrow> rowCommit row = c"
  by (auto simp: layoutCommit_Some_iff)


section \<open>The loop of fetchMore\<close>

lemma fetchLoop_invalid:
  "fetchLoop parentsOf colors gv ps rows0 i rows None walker frontier
     = Some (rows, None, walker, frontier)"
  by (subst fetchLoop.simps) (simp add: isValid_def)

lemma fetchLoop_fail:
  "layoutCommit parentsOf colors gv ps rows0 rows (Some x) frontier = None \<Longrightarrow>
     fetchLoop parentsOf colors gv ps rows0 i rows (Some x) walker frontier = None"
  by (subst fetchLoop.simps) (simp add: isValid_def)

lemma fetchLoop_break:
  "layoutCommit parentsOf colors gv ps rows0 rows (Some x) frontier = Some (row, frontier1) \<Longrightarrow>
   64 \<le> i \<Longrightarrow>
     fetchLoop parentsOf colors gv ps rows0 i rows (Some x) walker frontier
       = Some (rows @ [row], Some x, walker, frontier1)"
  by (subst fetchLoop.simps) (simp add: isValid_def)

lemma fetchLoop_next:
  "layoutCommit parentsOf colors gv ps rows0 rows (Some x) frontier = Some (row, frontier1) \<Longrightarrow>
   i < 64 \<Longrightarrow>
     fetchLoop parentsOf colors gv ps rows0 i rows (Some x) walker frontier
       = fetchLoop parentsOf colors gv ps rows0 (i + 1) (rows @ [row])
           (fst (walkerNext walker)) (snd (walkerNext walker)) frontier1"
  by (subst fetchLoop.simps) (simp add: isValid_def)

lemma fetchLoop_result:
  assumes "fetchLoop parentsOf colors gv ps rows0 i rows (Some x) (Some w) frontier
             = Some (rows', c', walker', frontier')"
    and "i \<le> 64"
  shows "map rowCommit rows' = map rowCommit rows @ map Some (take (65 - i) (x # w))
       \<and> length rows' = length rows + min (65 - i) (Suc (length w))
       \<and> (isValid c' \<longleftrightarrow> 65 - i \<le> Suc (length w))
       \<and> (isValid c' \<longrightarrow> walker' = Some (drop (65 - i) (x # w)))
       \<and> (distinct (map commit frontier) \<longrightarrow> (\<forall>c. distinct (parentsOf c))
            \<longrightarrow> distinct (map commit frontier'))"
  using assms
proof (induction w arbitrary: x i rows frontier)
  case Nil
  from Nil.prems(1) obtain row frontier1 where
    lay: "layoutCommit parentsOf colors gv ps rows0 rows (Some x) frontier = Some (row, frontier1)"
    by (cases "layoutCommit parentsOf colors gv ps rows0 rows (Some x) frontier")
       (auto simp: fetchLoop_fail)
  note rc = layoutCommit_rowCommit[OF lay]
  note ld = layoutCommit_distinct[OF lay]
  show ?case
  proof (cases "i < 64")
    case True
    with Nil.prems(1) lay have "rows' = rows @ [row]" "c' = None" "frontier' = frontier1"
      by (simp_all add: fetchLoop_next walkerNext_def fetchLoop_invalid)
    with True rc ld show ?thesis by (simp add: isValid_def)
  next
    case False
    with Nil.prems(2) have i: "i = 64" by simp
    with Nil.prems(1) lay have "rows' = rows @ [row]" "c' = Some x" "walker' = Some []"
      "frontier' = frontier1"
      by (simp_all add: fetchLoop_break)
    with i rc ld show ?thesis by (simp add: isValid_def)
  qed
next
  case (Cons y w)
  from Cons.prems(1) obtain row frontier1 where
    lay: "layoutCommit parentsOf colors gv ps rows0 rows (Some x) frontier = Some (row, frontier1)"
    by (cases "layoutCommit parentsOf colors gv ps rows0 rows (Some x) frontier")
       (auto simp: fetchLoop_fail)
  note rc = layoutCommit_rowCommit[OF lay]
  note ld = layoutCommit_distinct[OF lay]
  show ?case
  proof (cases "i < 64")
    case True
    with Cons.prems(1) lay have
      "fetchLoop parentsOf colors gv ps rows0 (i + 1) (rows @ [row]) (Some y) (Some w) frontier1
         = Some (rows', c', walker', frontier')"
      by (simp add: fetchLoop_next walkerNext_def)
    from Cons.IH[OF this] True have ih:
      "map rowCommit rows' = map rowCommit (rows @ [row]) @ map Some (take (65 - (i + 1)) (y # w))"
      "length rows' = length (rows @ [row]) + min (65 - (i + 1)) (Suc (length w))"
      "isValid c' \<longleftrightarrow> 65 - (i + 1) \<le> Suc (length w)"
      "isValid c' \<longrightarrow> walker' = Some (drop (65 - (i + 1)) (y # w))"
      "distinct (map commit frontier1) \<longrightarrow> (\<forall>c. distinct (parentsOf c))
            \<longrightarrow> distinct (map commit frontier')"
      by simp_all
    have s: "65 - i = Suc (65 - (i + 1))" using True by simp
    show ?thesis
      unfolding s using ih rc ld by (auto simp: min_def)
  next
    case False
    with Cons.prems(2) have i: "i = 64" by simp
    with Cons.prems(1) lay have "rows' = rows @ [row]" "c' = Some x" "walker' = Some (y # w)"
      "frontier' = frontier1"
      by (simp_all add: fetchLoop_break)
    with i rc ld show ?thesis by (simp add: isValid_def)
  qed
qed

lemma fetchLoop_total:
  assumes "colors \<noteq> []" and "\<forall>c. distinct (parentsOf c)"
    and "distinct (map commit frontier)"
  shows "\<exists>r. fetchLoop parentsOf colors gv ps rows0 i rows (Some x) (Some w) frontier = Some r"
  using assms(3)
proof (induction w arbitrary: x i rows frontier)
  case Nil
  obtain row frontier1 where
    lay: "layoutCommit parentsOf colors gv ps rows0 rows (Some x) frontier = Some (row, frontier1)"
    using layoutCommit_total[where parentsOf = parentsOf and c = "Some x", OF assms(1) Nil.prems]
      assms(2) by blast
  show ?case
    by (cases "i < 64")
       (simp_all add: fetchLoop_next[OF lay] fetchLoop_break[OF lay] walkerNext_def
          fetchLoop_invalid)
next
  case (Cons y w)
  obtain row frontier1 where
    lay: "layoutCommit parentsOf colors gv ps rows0 rows (Some x) frontier = Some (row, frontier1)"
    using layoutCommit_total[where parentsOf = parentsOf and c = "Some x", OF assms(1) Cons.prems]
      assms(2) by blast
  have d: "distinct (map commit frontier1)"
    using layoutCommit_distinct[OF lay Cons.prems] assms(2) by blast
  show ?case
  proof (cases "i < 64")
    case True
    with Cons.IH[OF d] show ?thesis
      by (simp add: fetchLoop_next[OF lay] walkerNext_def)
  next
    case False
    then show ?thesis by (simp add: fetchLoop_break[OF lay])
  qed
qed

section \<open>fetchMore\<close>

lemma fetchMore_no_walker:
  "mWalker st = None \<Longrightarrow> fetchMore parentsOf colors st = Some st"
  by (simp add: fetchMore_def walkerNext_def fetchLoop_invalid isValid_def)

lemma fetchMore_exhausted:
  "mWalker st = Some [] \<Longrightarrow> fetchMore parentsOf colors st = Some (st\<lparr>mWalker := None\<rparr>)"
  by (simp add: fetchMore_def walkerNext_def fetchLoop_invalid isValid_def)

lemma fetchMore_Cons:
  "mWalker st = Some (x # w) \<Longrightarrow>
     fetchMore parentsOf colors st =
       (case fetchLoop parentsOf colors (mGraphVisible st) (mPathspec st) (mRows st) 0 []
               (Some x) (Some w) (mParents st) of
          None \<Rightarrow> None
        | Some (rows, c, walker, parents) \<Rightarrow>
            Some (st\<lparr> mRows := mRows st @ rows, mParents := parents,
                     mWalker := (if \<not> isValid c then None else walker) \<rparr>))"
  by (simp add: fetchMore_def walkerNext_def split: option.splits)

lemma fetchMore_result:
  assumes "fetchMore parentsOf colors st = Some st'" and "mWalker st = Some w"
  shows "map rowCommit (mRows st') = map rowCommit (mRows st) @ map Some (take 65 w)
       \<and> length (mRows st') = length (mRows st) + min 65 (length w)
       \<and> mWalker st' = (if 65 \<le> length w then Some (drop 65 w) else None)
       \<and> (distinct (map commit (mParents st)) \<longrightarrow> (\<forall>c. distinct (parentsOf c))
            \<longrightarrow> distinct (map commit (mParents st')))"
proof (cases w)
  case Nil
  with assms have "st' = st\<lparr>mWalker := None\<rparr>" by (simp add: fetchMore_exhausted)
  with Nil show ?thesis by simp
next
  case (Cons x w')
  with assms obtain rows c walker parents where
    loop: "fetchLoop parentsOf colors (mGraphVisible st) (mPathspec st) (mRows st) 0 []
               (Some x) (Some w') (mParents st) = Some (rows, c, walker, parents)"
    and st': "st' = st\<lparr> mRows := mRows st @ rows, mParents := parents,
                     mWalker := (if \<not> isValid c then None else walker) \<rparr>"
    by (auto simp: fetchMore_Cons split: option.splits)
  from fetchLoop_result[OF loop] have r:
    "map rowCommit rows = map Some (take 65 (x # w'))"
    "length rows = min 65 (Suc (length w'))"
    "isValid c \<longleftrightarrow> 65 \<le> Suc (length w')"
    "isValid c \<longrightarrow> walker = Some (drop 65 (x # w'))"
    "distinct (map commit (mParents st)) \<longrightarrow> (\<forall>c. distinct (parentsOf c))
            \<longrightarrow> distinct (map commit parents)"
    by simp_all
  show ?thesis
    unfolding st' Cons using r by simp
qed

lemma fetchMore_fields:
  assumes "fetchMore parentsOf colors st = Some st'"
  shows "mStatus st' = mStatus st \<and> mPathspec st' = mPathspec st \<and> mRef st' = mRef st
       \<and> mRefsAll st' = mRefsAll st \<and> mSortDate st' = mSortDate st
       \<and> mCleanStatus st' = mCleanStatus st \<and> mGraphVisible st' = mGraphVisible st
       \<and> mCompactMode st' = mCompactMode st"
  using assms by (auto simp: fetchMore_def bind_eq_Some_conv)

text \<open>
  When no commit names a parent twice and the frontier holds no commit twice,
  \<open>fetchMore\<close> returns for every non-empty palette, and the frontier it leaves holds
  no commit twice.
\<close>

lemma fetchMore_total:
  assumes "colors \<noteq> []" and "\<forall>c. distinct (parentsOf c)"
    and "distinct (map commit (mParents st))"
  shows "\<exists>st'. fetchMore parentsOf colors st = Some st'"
proof (cases "mWalker st")
  case None
  then show ?thesis by (simp add: fetchMore_no_walker)
next
  case (Some w)
  show ?thesis
  proof (cases w)
    case Nil
    with Some show ?thesis by (simp add: fetchMore_exhausted)
  next
    case (Cons x w')
    from fetchLoop_total[of colors parentsOf "mParents st", OF assms]
    obtain r where "fetchLoop parentsOf colors (mGraphVisible st) (mPathspec st) (mRows st) 0 []
               (Some x) (Some w') (mParents st) = Some r" by blast
    with Some Cons show ?thesis
      by (cases r) (simp add: fetchMore_Cons)
  qed
qed

lemma fetchMore_distinct:
  assumes "fetchMore parentsOf colors st = Some st'"
    and "\<forall>c. distinct (parentsOf c)"
    and "distinct (map commit (mParents st))"
  shows "distinct (map commit (mParents st'))"
proof (cases "mWalker st")
  case None
  with assms show ?thesis by (simp add: fetchMore_no_walker)
next
  case (Some w)
  from fetchMore_result[OF assms(1) Some] assms(2,3) show ?thesis by simp
qed

text \<open>The equations that run \<open>fetchMore\<close> on a concrete walk.\<close>

lemmas run_simps = fetchMore_Cons fetchLoop_next fetchLoop_break fetchLoop_invalid walkerNext_def
  isValid_def walking_def


section \<open>Batches\<close>

lemma fetchTimes_no_walker:
  "mWalker st = None \<Longrightarrow> fetchTimes n parentsOf colors st = Some st"
  by (induction n) (simp_all add: fetchMore_no_walker)

lemma fetchTimes_rows:
  assumes "colors \<noteq> []" and "\<forall>c. distinct (parentsOf c)"
    and "distinct (map commit (mParents st))" and "mWalker st = Some w"
  shows "\<exists>st'. fetchTimes n parentsOf colors st = Some st'
           \<and> rowCount st' = rowCount st + min (65 * n) (length w)
           \<and> (canFetchMore st' \<longleftrightarrow> 65 * n \<le> length w)"
  using assms(3,4)
proof (induction n arbitrary: st w)
  case 0
  then show ?case by (simp add: canFetchMore_def)
next
  case (Suc n)
  obtain st1 where st1: "fetchMore parentsOf colors st = Some st1"
    using fetchMore_total[OF assms(1,2) Suc.prems(1)] by blast
  from fetchMore_result[OF st1 Suc.prems(2)] Suc.prems(1) assms(2) have r:
    "length (mRows st1) = length (mRows st) + min 65 (length w)"
    "mWalker st1 = (if 65 \<le> length w then Some (drop 65 w) else None)"
    "distinct (map commit (mParents st1))"
    by simp_all
  show ?case
  proof (cases "65 \<le> length w")
    case True
    with r(2) have w1: "mWalker st1 = Some (drop 65 w)" by simp
    from Suc.IH[OF r(3) w1] obtain st' where
      "fetchTimes n parentsOf colors st1 = Some st'"
      "rowCount st' = rowCount st1 + min (65 * n) (length (drop 65 w))"
      "canFetchMore st' \<longleftrightarrow> 65 * n \<le> length (drop 65 w)"
      by blast
    with st1 r(1) True show ?thesis
      by (auto simp: rowCount_def min_def)
  next
    case False
    with r(2) have "mWalker st1 = None" by simp
    then have "fetchTimes n parentsOf colors st1 = Some st1" "\<not> canFetchMore st1"
      by (simp_all add: fetchTimes_no_walker canFetchMore_def)
    with st1 r(1) False show ?thesis
      by (auto simp: rowCount_def min_def)
  qed
qed

lemma distinct_chainParents: "\<forall>c. distinct (chainParents c)"
  by (simp add: chainParents_def split: option.splits nat.splits)

text \<open>
  C5. A walk that yields 200 commits (the linear history 199, \<dots>, 0), fetched from a
  model with no rows: each of the first three calls of \<open>fetchMore\<close> appends 65 rows and
  leaves the walker valid, the fourth appends the last 5 and invalidates it. A call
  pulls up to 65 commits, one more than the bound of 64.
\<close>

theorem fetchMore_batch_is_65:
  "map_option rowCount (fetchTimes 1 chainParents examplePalette (walking (rev [0..<200]))) = Some 65
   \<and> map_option rowCount (fetchTimes 2 chainParents examplePalette (walking (rev [0..<200]))) = Some 130
   \<and> map_option rowCount (fetchTimes 3 chainParents examplePalette (walking (rev [0..<200]))) = Some 195
   \<and> map_option canFetchMore (fetchTimes 3 chainParents examplePalette (walking (rev [0..<200]))) = Some True
   \<and> map_option rowCount (fetchTimes 4 chainParents examplePalette (walking (rev [0..<200]))) = Some 200
   \<and> map_option canFetchMore (fetchTimes 4 chainParents examplePalette (walking (rev [0..<200]))) = Some False"
proof -
  have ne: "examplePalette \<noteq> []" by (simp add: examplePalette_def)
  have d: "distinct (map commit (mParents (walking (rev [0..<200]))))"
    by (simp add: walking_def)
  have w: "mWalker (walking (rev [0..<200])) = Some (rev [0..<200])"
    by (simp add: walking_def)
  have z: "rowCount (walking (rev [0..<200])) = 0"
    by (simp add: walking_def rowCount_def)
  note t = fetchTimes_rows[of examplePalette chainParents "walking (rev [0..<200])" "rev [0..<200]",
              OF ne distinct_chainParents d w]
  from t[of 1] t[of 2] t[of 3] t[of 4] z show ?thesis
    by auto
qed

section \<open>Frontier uniqueness\<close>

text \<open>
  C4. A commit object that names one parent more than once puts that parent into the
  frontier once for each mention: no lane holds it when the replacements are chosen.
  Between the rows of commit 3 (parents 1, 1) and of its parent the frontier holds
  commit 1 twice; after a whole call of \<open>fetchMore\<close> on the walk 2, 1 (commit 2 with
  parents 1, 1, 1) it still holds commit 1 twice.
\<close>

theorem frontier_duplicate_parent:
  "map_option snd (layoutCommit repeatedParents examplePalette True [] [] [] (Some 3) [])
     = Some [Parent (Some 1) (QColor ''#ff0000'' 255) False,
             Parent (Some 1) (QColor ''#00ff00'' 255) False]
   \<and> map_option frontierCommits (fetchMore repeatedParents examplePalette (walking [2, 1]))
     = Some [Some 1, Some 1]
   \<and> \<not> distinct [Some (1::nat), Some 1]"
  by (simp add: run_simps repeatedParents_def frontierCommits_def eval_simps)

text \<open>
  C1. Commit 3 names its parent 1 twice and is laid out while lane 0 holds it. The
  first mention takes lane 0 with the lane's colour. The second mention is appended as
  a new lane with a fresh colour although lane 0 holds commit 1 by then: the parents are
  filtered against the frontier as it stands before any of them is inserted, so a
  parent already present in the frontier is inserted again.
\<close>

theorem parent_inserted_again:
  "layoutCommit repeatedParents examplePalette True [] [] [] (Some 3)
      [Parent (Some 3) (QColor ''#ff0000'' 255) False]
     = Some (Row (Some 3)
               [[Segment Top (QColor ''#ff0000'' 255), Segment Bottom (QColor ''#ff0000'' 255),
                 Segment Bottom (QColor ''#ff0000'' 255), Segment Dot (QColor ''#ff0000'' 255)]],
             [Parent (Some 1) (QColor ''#ff0000'' 255) False,
              Parent (Some 1) (QColor ''#00ff00'' 255) False])
   \<and> replacementsOf repeatedParents [] [] [Parent (Some 3) (QColor ''#ff0000'' 255) False]
        (Some 3) = [Some 1, Some 1]
   \<and> indexOf [Parent (Some 1) (QColor ''#ff0000'' 255) False] (Some 1) = Some 0"
  by (simp add: repeatedParents_def eval_simps)

section \<open>A linear chain\<close>

lemma nextColor_empty_frontier:
  "colors \<noteq> [] \<Longrightarrow> nextColor colors [] = Some (hd colors)"
  by (cases colors) (simp_all add: nextColor_least_used usageCount_def)

text \<open>
  C6 as the code has it. For a linear chain whose tip \<open>c\<close> has the parent \<open>b\<close> and
  \<open>b\<close> the parent \<open>a\<close>, laid out in the order \<open>c\<close>, \<open>b\<close>, \<open>a\<close> from an empty model
  with the graph visible and no path filter, each of the three rows has exactly one
  column: the tip's is Bottom, Dot; the interior commit's is Top, Bottom, Dot; the last
  commit's is Top, Dot, with no Bottom. All segments have the first palette colour, and
  the frontier is empty afterwards.
\<close>

theorem linear_chain_rows:
  assumes "parentsOf (Some c) = [Some b]" and "parentsOf (Some b) = [Some a]"
    and "parentsOf (Some a) = []"
    and "a \<noteq> b" and "b \<noteq> c" and "a \<noteq> c"
    and "colors \<noteq> []"
    and "mGraphVisible st" and "mPathspec st = []"
    and "mParents st = []" and "mRows st = []" and "mWalker st = Some [c, b, a]"
  shows "\<exists>st'. fetchMore parentsOf colors st = Some st'
     \<and> mRows st' =
         [Row (Some c) [[Segment Bottom (hd colors), Segment Dot (hd colors)]],
          Row (Some b) [[Segment Top (hd colors), Segment Bottom (hd colors),
                         Segment Dot (hd colors)]],
          Row (Some a) [[Segment Top (hd colors), Segment Dot (hd colors)]]]
     \<and> mParents st' = [] \<and> mWalker st' = None"
proof -
  note ev = layoutCommit_def addRoot_def replacementsOf_def contains_def replaceCommit_def
    columns_def addOutgoing_def successorsOf_def addPath_def addSegment_def taintedColor_def
    Let_def nextColor_empty_frontier[OF assms(7)]
  define col where "col = hd colors"
  have r1: "layoutCommit parentsOf colors True [] [] [] (Some c) []
      = Some (Row (Some c) [[Segment Bottom col, Segment Dot col]], [Parent (Some b) col False])"
    using assms(1,5) by (simp add: ev col_def)
  have r2: "layoutCommit parentsOf colors True [] []
        [Row (Some c) [[Segment Bottom col, Segment Dot col]]] (Some b) [Parent (Some b) col False]
      = Some (Row (Some b) [[Segment Top col, Segment Bottom col, Segment Dot col]],
              [Parent (Some a) col False])"
    using assms(2,4,6) by (simp add: ev)
  have r3: "layoutCommit parentsOf colors True [] []
        [Row (Some c) [[Segment Bottom col, Segment Dot col]],
         Row (Some b) [[Segment Top col, Segment Bottom col, Segment Dot col]]]
        (Some a) [Parent (Some a) col False]
      = Some (Row (Some a) [[Segment Top col, Segment Dot col]], [])"
    using assms(3) by (simp add: ev)
  have "fetchMore parentsOf colors st =
      Some (st\<lparr> mRows := [] @
                  [Row (Some c) [[Segment Bottom col, Segment Dot col]],
                   Row (Some b) [[Segment Top col, Segment Bottom col, Segment Dot col]],
                   Row (Some a) [[Segment Top col, Segment Dot col]]],
                mParents := [], mWalker := None \<rparr>)"
    using assms(8-12) r1 r2 r3
    by (simp add: fetchMore_Cons fetchLoop_next fetchLoop_invalid walkerNext_def isValid_def)
  then show ?thesis by (simp add: col_def)
qed

theorem linear_chain_rows_witness:
  "map_option mRows (fetchMore chainParents examplePalette (walking [2, 1, 0])) =
     Some ([Row (Some 2) [[Segment Bottom (QColor ''#ff0000'' 255),
                           Segment Dot (QColor ''#ff0000'' 255)]],
            Row (Some 1) [[Segment Top (QColor ''#ff0000'' 255),
                           Segment Bottom (QColor ''#ff0000'' 255),
                           Segment Dot (QColor ''#ff0000'' 255)]],
            Row (Some 0) [[Segment Top (QColor ''#ff0000'' 255),
                           Segment Dot (QColor ''#ff0000'' 255)]]])"
  using linear_chain_rows[of chainParents 2 1 0 examplePalette "walking [2, 1, 0]"]
  by (auto simp: chainParents_def examplePalette_def walking_def)

theorem linear_chain_counterexample:
  "map_option (rowKindsAt 1) (fetchMore chainParents examplePalette (walking [2, 1, 0]))
     = Some [[Top, Bottom, Dot]]
   \<and> map_option (rowKindsAt 1) (fetchMore chainParents examplePalette (walking [2, 1, 0]))
     \<noteq> Some [[Top, Dot]]
   \<and> map_option (rowKindsAt 2) (fetchMore chainParents examplePalette (walking [2, 1, 0]))
     = Some [[Top, Dot]]
   \<and> map_option (rowKindsAt 2) (fetchMore chainParents examplePalette (walking [2, 1, 0]))
     \<noteq> Some [[Dot]]"
  by (simp add: run_simps chainParents_def rowKindsAt_def eval_simps)

section \<open>resetWalker and the status row\<close>

lemma fetchMore_rowCommits:
  assumes "fetchMore parentsOf colors st = Some st'"
  shows "\<exists>ws. map rowCommit (mRows st') = map rowCommit (mRows st) @ map Some ws"
proof (cases "mWalker st")
  case None
  with assms have "st' = st" by (simp add: fetchMore_no_walker)
  then show ?thesis by (intro exI[of _ "[]"]) simp
next
  case (Some w)
  from fetchMore_result[OF assms Some] show ?thesis by blast
qed

lemma status_row_kept:
  assumes "map rowCommit rows' = map rowCommit rows @ map Some ws"
  shows "(\<forall>k<length rows. rowCommit (rows ! k) = None \<longrightarrow> k = 0)
           \<longrightarrow> (\<forall>k<length rows'. rowCommit (rows' ! k) = None \<longrightarrow> k = 0)"
    and "(\<exists>k<length rows'. rowCommit (rows' ! k) = None)
           \<longleftrightarrow> (\<exists>k<length rows. rowCommit (rows ! k) = None)"
proof -
  have len: "length rows' = length rows + length ws"
    using assms by (metis length_append length_map)
  have nth: "rowCommit (rows' ! k) =
               (if k < length rows then rowCommit (rows ! k) else Some (ws ! (k - length rows)))"
    if "k < length rows'" for k
  proof -
    have "rowCommit (rows' ! k) = map rowCommit rows' ! k" using that by simp
    also have "\<dots> = (map rowCommit rows @ map Some ws) ! k" using assms by simp
    also have "\<dots> = (if k < length rows then rowCommit (rows ! k)
                       else Some (ws ! (k - length rows)))"
      using that len by (auto simp: nth_append)
    finally show ?thesis .
  qed
  show "(\<forall>k<length rows. rowCommit (rows ! k) = None \<longrightarrow> k = 0)
           \<longrightarrow> (\<forall>k<length rows'. rowCommit (rows' ! k) = None \<longrightarrow> k = 0)"
    using nth by (metis option.distinct(1))
  show "(\<exists>k<length rows'. rowCommit (rows' ! k) = None)
           \<longleftrightarrow> (\<exists>k<length rows. rowCommit (rows ! k) = None)"
  proof
    assume "\<exists>k<length rows'. rowCommit (rows' ! k) = None"
    then obtain k where "k < length rows'" "rowCommit (rows' ! k) = None" by blast
    with nth[of k] show "\<exists>k<length rows. rowCommit (rows ! k) = None"
      by (cases "k < length rows") auto
  next
    assume "\<exists>k<length rows. rowCommit (rows ! k) = None"
    then obtain k where "k < length rows" "rowCommit (rows ! k) = None" by blast
    with nth[of k] len show "\<exists>k<length rows'. rowCommit (rows' ! k) = None"
      by (intro exI[of _ k]) auto
  qed
qed

lemma updateStatusRow_rows:
  assumes "updateStatusRow colors st = Some st1" and "mRows st = []"
  shows "map rowCommit (mRows st1) =
            (if (case mRef st of None \<Rightarrow> True | Some r \<Rightarrow> isHead r)
                \<and> (mCleanStatus st \<or> \<not> isFinished (mStatus st)
                     \<or> diffIsValid (status (mStatus st)))
                \<and> mPathspec st = [] then [None] else [])"
  using assms
  by (auto simp: updateStatusRow_def Let_def bind_eq_Some_conv split: option.splits if_splits)

lemma beginWalking_rows: "mRows (beginWalking walk st) = mRows st"
  by (simp add: beginWalking_def split: option.splits)

lemma resetWalker_Some:
  assumes "resetWalker parentsOf colors walk st = Some st'"
  shows "\<exists>st1. map rowCommit (mRows st1) =
            (if (case mRef st of None \<Rightarrow> True | Some r \<Rightarrow> isHead r)
                \<and> (mCleanStatus st \<or> \<not> isFinished (mStatus st)
                     \<or> diffIsValid (status (mStatus st)))
                \<and> mPathspec st = [] then [None] else [])
          \<and> (st' = st1 \<or> fetchMore parentsOf colors st1 = Some st')"
proof -
  from assms obtain st0 where
    upd: "updateStatusRow colors (st\<lparr> mParents := [], mRows := [] \<rparr>) = Some st0"
    and run: "(if canFetchMore (beginWalking walk st0)
               then fetchMore parentsOf colors (beginWalking walk st0)
               else Some (beginWalking walk st0)) = Some st'"
    by (auto simp: resetWalker_def Let_def bind_eq_Some_conv)
  from updateStatusRow_rows[OF upd] have
    "map rowCommit (mRows (beginWalking walk st0)) =
            (if (case mRef st of None \<Rightarrow> True | Some r \<Rightarrow> isHead r)
                \<and> (mCleanStatus st \<or> \<not> isFinished (mStatus st)
                     \<or> diffIsValid (status (mStatus st)))
                \<and> mPathspec st = [] then [None] else [])"
    by (simp add: beginWalking_rows)
  moreover from run have
    "st' = beginWalking walk st0 \<or> fetchMore parentsOf colors (beginWalking walk st0) = Some st'"
    by (auto split: if_splits)
  ultimately show ?thesis by blast
qed

text \<open>The equations that run \<open>resetWalker\<close>.\<close>

lemmas reset_simps = resetWalker_def updateStatusRow_def beginWalking_def canFetchMore_def
  sortMode_def status_def

text \<open>
  C8. After a reset, and after any later call of \<open>fetchMore\<close>, a row with no commit (the
  status row) is at index 0 only. After a reset there is such a row exactly when the
  selected reference is HEAD or invalid, and the clean-status setting is on or the
  status has not finished or its diff is valid, and the path filter is empty; a call of
  \<open>fetchMore\<close> neither adds nor removes it.
\<close>

theorem status_row_first:
  "(resetWalker parentsOf colors walk st = Some st' \<longrightarrow>
       (\<forall>k<length (mRows st'). rowCommit (mRows st' ! k) = None \<longrightarrow> k = 0)
     \<and> ((\<exists>k<length (mRows st'). rowCommit (mRows st' ! k) = None) \<longleftrightarrow>
          (case mRef st of None \<Rightarrow> True | Some r \<Rightarrow> isHead r)
          \<and> (mCleanStatus st \<or> \<not> isFinished (mStatus st) \<or> diffIsValid (status (mStatus st)))
          \<and> mPathspec st = []))
   \<and> (fetchMore parentsOf colors st = Some st' \<longrightarrow>
       ((\<forall>k<length (mRows st). rowCommit (mRows st ! k) = None \<longrightarrow> k = 0)
          \<longrightarrow> (\<forall>k<length (mRows st'). rowCommit (mRows st' ! k) = None \<longrightarrow> k = 0))
     \<and> ((\<exists>k<length (mRows st'). rowCommit (mRows st' ! k) = None) \<longleftrightarrow>
          (\<exists>k<length (mRows st). rowCommit (mRows st ! k) = None)))"
proof (intro conjI impI)
  assume f: "fetchMore parentsOf colors st = Some st'"
  then obtain ws where ws: "map rowCommit (mRows st') = map rowCommit (mRows st) @ map Some ws"
    using fetchMore_rowCommits by blast
  note k = status_row_kept[OF ws]
  {
    assume "\<forall>k<length (mRows st). rowCommit (mRows st ! k) = None \<longrightarrow> k = 0"
    with k(1) show "\<forall>k<length (mRows st'). rowCommit (mRows st' ! k) = None \<longrightarrow> k = 0"
      by simp
  }
  from k(2) show "(\<exists>k<length (mRows st'). rowCommit (mRows st' ! k) = None) \<longleftrightarrow>
          (\<exists>k<length (mRows st). rowCommit (mRows st ! k) = None)"
    by simp
next
  assume r: "resetWalker parentsOf colors walk st = Some st'"
  define cond where "cond \<longleftrightarrow> (case mRef st of None \<Rightarrow> True | Some r \<Rightarrow> isHead r)
          \<and> (mCleanStatus st \<or> \<not> isFinished (mStatus st) \<or> diffIsValid (status (mStatus st)))
          \<and> mPathspec st = []"
  from resetWalker_Some[OF r] obtain st1 where
    rows1: "map rowCommit (mRows st1) = (if cond then [None] else [])"
    and st': "st' = st1 \<or> fetchMore parentsOf colors st1 = Some st'"
    unfolding cond_def by blast
  obtain ws where ws: "map rowCommit (mRows st') = map rowCommit (mRows st1) @ map Some ws"
    using st' fetchMore_rowCommits[of parentsOf colors st1 st']
    by (cases "st' = st1") (auto intro: exI[of _ "[]"])
  have len1: "length (mRows st1) = (if cond then 1 else 0)"
    using rows1 by (metis length_map length_Cons list.size(3) One_nat_def)
  have one: "\<forall>k<length (mRows st1). rowCommit (mRows st1 ! k) = None \<longrightarrow> k = 0"
    using len1 by (auto split: if_splits)
  have "cond \<Longrightarrow> rowCommit (mRows st1 ! 0) = None"
    using rows1 len1 by (metis nth_map nth_Cons_0 zero_less_one)
  then have ex1: "(\<exists>k<length (mRows st1). rowCommit (mRows st1 ! k) = None) \<longleftrightarrow> cond"
    using len1 by (auto split: if_splits)
  note k = status_row_kept[OF ws]
  from k(1) one show "\<forall>k<length (mRows st'). rowCommit (mRows st' ! k) = None \<longrightarrow> k = 0"
    by simp
  from k(2) ex1 show "(\<exists>k<length (mRows st'). rowCommit (mRows st' ! k) = None) \<longleftrightarrow>
          (case mRef st of None \<Rightarrow> True | Some r \<Rightarrow> isHead r)
          \<and> (mCleanStatus st \<or> \<not> isFinished (mStatus st) \<or> diffIsValid (status (mStatus st)))
          \<and> mPathspec st = []"
    unfolding cond_def by simp
qed

theorem status_row_first_witness:
  "resetWalker chainParents examplePalette headWalk onHead
     = Some (onHead\<lparr> mWalker := None, mRows := headRows, mParents := [] \<rparr>)
   \<and> fetchMore chainParents examplePalette headStarted
     = Some (onHead\<lparr> mWalker := None, mRows := headRows, mParents := [] \<rparr>)
   \<and> (\<exists>k<length headRows. rowCommit (headRows ! k) = None)"
proof -
  have r: "resetWalker chainParents examplePalette headWalk onHead
     = Some (onHead\<lparr> mWalker := None, mRows := headRows, mParents := [] \<rparr>)"
    by (simp add: reset_simps onHead_def headWalk_def headRows_def fetchMore_Cons fetchLoop_next
          fetchLoop_break fetchLoop_invalid walkerNext_def isValid_def chainParents_def
          eval_simps)
  have f: "fetchMore chainParents examplePalette headStarted
     = Some (onHead\<lparr> mWalker := None, mRows := headRows, mParents := [] \<rparr>)"
    by (simp add: headStarted_def onHead_def headRows_def run_simps chainParents_def eval_simps)
  from status_row_first[of chainParents examplePalette headWalk onHead,
         THEN conjunct1, rule_format, OF r]
  have a: "\<exists>k<length headRows. rowCommit (headRows ! k) = None"
    by (simp add: onHead_def status_def)
  from status_row_first[of chainParents examplePalette headWalk headStarted,
         THEN conjunct2, rule_format, OF f]
  have b: "\<exists>k<length headRows. rowCommit (headRows ! k) = None"
    by (simp add: headStarted_def onHead_def)
  from r f a b show ?thesis by simp
qed

section \<open>A reset with no reference\<close>

text \<open>
  C9 as the code has it. With no valid reference selected and no walker left open, a
  reset returns, leaves the frontier empty and makes no walker; of rows it leaves the
  status row alone, and that exactly when the clean-status setting is on or the status
  has not finished or its diff is valid, and the path filter is empty.
\<close>

theorem reset_without_reference:
  assumes "mRef st = None" and "mWalker st = None"
  shows "resetWalker parentsOf colors walk st =
     Some (st\<lparr> mParents := [],
              mRows := (if (mCleanStatus st \<or> \<not> isFinished (mStatus st)
                              \<or> diffIsValid (status (mStatus st)))
                           \<and> mPathspec st = []
                        then [Row None []] else []) \<rparr>)"
  using assms
  by (simp add: resetWalker_def updateStatusRow_def beginWalking_def canFetchMore_def Let_def)

theorem reset_without_reference_witness:
  "mRef noReference = None \<and> mWalker noReference = None
   \<and> resetWalker chainParents examplePalette noWalk noReference
       = Some (noReference\<lparr> mParents := [], mRows := [Row None []] \<rparr>)"
  using reset_without_reference[of noReference chainParents examplePalette noWalk]
  by (simp add: noReference_def)

theorem reset_without_reference_counterexample:
  "map_option mRows (resetWalker chainParents examplePalette noWalk noReference)
     = Some [Row None []]
   \<and> map_option mRows (resetWalker chainParents examplePalette noWalk noReference) \<noteq> Some []"
  by (simp add: reset_simps noReference_def Let_def)

end
